theory Spec2Isabelle
  imports Main "HOL-Library.Sublist" "HOL-Library.AList"
begin

section \<open>JavaScript library primitives used by the scripts\<close>

text \<open>
  JavaScript strings are modelled as \<^typ>\<open>string\<close>; one \<^typ>\<open>char\<close> stands for one
  code unit.  The functions of this section are the library functions that
  \<^verbatim>\<open>build.ts\<close> and the development server call; each follows the ECMAScript
  definition of the function of the same name.
\<close>

type_synonym env = "string \<rightharpoonup> string"

text \<open>\<^verbatim>\<open>process.env.X || ""\<close>: an unset variable and an empty one both give the empty string.\<close>

definition or_empty :: "string option \<Rightarrow> string" where
  "or_empty v = (case v of None \<Rightarrow> [] | Some s \<Rightarrow> (if s = [] then [] else s))"

definition startsWith :: "string \<Rightarrow> string \<Rightarrow> bool" where
  "startsWith s p = prefix p s"

definition endsWith :: "string \<Rightarrow> string \<Rightarrow> bool" where
  "endsWith s p = suffix p s"

text \<open>\<^verbatim>\<open>String.prototype.indexOf\<close>: the position of the first occurrence, if any.\<close>

fun indexOf :: "string \<Rightarrow> string \<Rightarrow> nat option" where
  "indexOf [] pat = (if pat = [] then Some 0 else None)"
| "indexOf (c # cs) pat =
     (if prefix pat (c # cs) then Some 0 else map_option Suc (indexOf cs pat))"

text \<open>
  \<^verbatim>\<open>String.prototype.replace\<close> with a string pattern: the text before the first
  occurrence, the replacement, the text after the occurrence; the string itself when
  the pattern does not occur.  A replacement without the character \<^verbatim>\<open>$\<close> is
  inserted as it is, and every replacement passed by \<^verbatim>\<open>build.ts\<close> is such a string.
\<close>

definition String_replace :: "string \<Rightarrow> string \<Rightarrow> string \<Rightarrow> string" where
  "String_replace s pat rep =
     (case indexOf s pat of
        None \<Rightarrow> s
      | Some i \<Rightarrow> take i s @ rep @ drop (i + length pat) s)"

text \<open>The number of positions of \<open>s\<close> at which \<open>pat\<close> occurs.\<close>

fun occurrences :: "string \<Rightarrow> string \<Rightarrow> nat" where
  "occurrences pat [] = (if pat = [] then 1 else 0)"
| "occurrences pat (c # cs) =
     (if prefix pat (c # cs) then 1 else 0) + occurrences pat cs"

text \<open>
  \<^verbatim>\<open>JSON.stringify\<close> of a string (QuoteJSONString): the string between double quotes,
  with the quote, the backslash and the control characters escaped.
\<close>

definition hex_digit :: "nat \<Rightarrow> char" where
  "hex_digit n = ''0123456789abcdef'' ! (n mod 16)"

definition quote_char :: "char \<Rightarrow> string" where
  "quote_char c =
     (if c = CHR 0x08 then [CHR 0x5C, CHR ''b'']
      else if c = CHR 0x09 then [CHR 0x5C, CHR ''t'']
      else if c = CHR 0x0A then [CHR 0x5C, CHR ''n'']
      else if c = CHR 0x0C then [CHR 0x5C, CHR ''f'']
      else if c = CHR 0x0D then [CHR 0x5C, CHR ''r'']
      else if c = CHR 0x22 then [CHR 0x5C, CHR 0x22]
      else if c = CHR 0x5C then [CHR 0x5C, CHR 0x5C]
      else if (of_char c :: nat) < 32
        then [CHR 0x5C, CHR ''u'', CHR ''0'', CHR ''0'',
              hex_digit (of_char c div 16), hex_digit (of_char c)]
      else [c])"

definition JSON_stringify :: "string \<Rightarrow> string" where
  "JSON_stringify s = CHR 0x22 # concat (map quote_char s) @ [CHR 0x22]"

text \<open>
  Reading a JSON string literal back (\<^verbatim>\<open>JSON.parse\<close> on a string literal): the inverse of
  the quoting, used to say what a literal of the table denotes.  An escape \<^verbatim>\<open>\u\<close> is read
  only for a code unit below 256, the range of \<^typ>\<open>char\<close>.
\<close>

definition hex_value :: "char \<Rightarrow> nat option" where
  "hex_value c =
     (let n = (of_char c :: nat) in
      if 48 \<le> n \<and> n \<le> 57 then Some (n - 48)
      else if 97 \<le> n \<and> n \<le> 102 then Some (n - 87)
      else if 65 \<le> n \<and> n \<le> 70 then Some (n - 55)
      else None)"

definition unescape :: "char \<Rightarrow> char option" where
  "unescape d =
     (if d = CHR ''b'' then Some (CHR 0x08)
      else if d = CHR ''t'' then Some (CHR 0x09)
      else if d = CHR ''n'' then Some (CHR 0x0A)
      else if d = CHR ''f'' then Some (CHR 0x0C)
      else if d = CHR ''r'' then Some (CHR 0x0D)
      else if d = CHR 0x22 \<or> d = CHR 0x5C \<or> d = CHR ''/'' then Some d
      else None)"

fun unquote :: "string \<Rightarrow> string option" where
  "unquote [] = None"
| "unquote (c # cs) =
     (if c = CHR 0x22 then (if cs = [] then Some [] else None)
      else if c = CHR 0x5C then
        (case cs of
           [] \<Rightarrow> None
         | d # ds \<Rightarrow>
             if d = CHR ''u'' then
               (case ds of
                  h1 # h2 # h3 # h4 # rest \<Rightarrow>
                    (case (hex_value h1, hex_value h2, hex_value h3, hex_value h4) of
                       (Some n1, Some n2, Some n3, Some n4) \<Rightarrow>
                         if n1 = 0 \<and> n2 = 0
                         then map_option ((#) (char_of (n3 * 16 + n4))) (unquote rest)
                         else None
                     | _ \<Rightarrow> None)
                | _ \<Rightarrow> None)
             else
               (case unescape d of
                  None \<Rightarrow> None
                | Some x \<Rightarrow> map_option ((#) x) (unquote ds)))
      else if (of_char c :: nat) < 32 then None
      else map_option ((#) c) (unquote cs))"

definition JSON_parse_string :: "string \<Rightarrow> string option" where
  "JSON_parse_string s =
     (case s of [] \<Rightarrow> None | c # cs \<Rightarrow> if c = CHR 0x22 then unquote cs else None)"

section \<open>The bundler interface\<close>

text \<open>
  \<^verbatim>\<open>Bun.build\<close> is external.  It receives an options object and either rejects or
  resolves to a result with a success flag, log messages and output artifacts.
  The \<^verbatim>\<open>define\<close> object is an association list in the order of the source.
\<close>

record build_options =
  entrypoints :: "string list"
  outdir :: "string option"
  target :: string
  output_format :: string
  splitting :: bool
  minify :: bool
  define_table :: "(string \<times> string) list"

record build_artifact =
  path :: string
  text_of :: string
  byte_size :: nat

datatype build_result =
  Rejected string
| Resolved (success: bool) (logs: "string list") (outputs: "build_artifact list")

section \<open>build.ts: the production build script\<close>

definition PUBLIC_API_KEY :: string where
  "PUBLIC_API_KEY = ''VITE_SUBSCRIBEDEV_PUBLIC_API_KEY''"

definition LOCAL_ACCESS_TOKEN :: string where
  "LOCAL_ACCESS_TOKEN = ''VITE_SUBSCRIBEDEV_LOCAL_ACCESS_TOKEN''"

text \<open>The \<^verbatim>\<open>define\<close> object of build.ts, lines 12 to 22.\<close>

definition build_define :: "env \<Rightarrow> (string \<times> string) list" where
  "build_define e =
     [(''import.meta.env.VITE_SUBSCRIBEDEV_PUBLIC_API_KEY'',
         JSON_stringify (or_empty (e PUBLIC_API_KEY))),
      (''import.meta.env.VITE_SUBSCRIBEDEV_LOCAL_ACCESS_TOKEN'', ''undefined''),
      (''import.meta.env.DEV'', ''false''),
      (''import.meta.env.MODE'', JSON_stringify ''production''),
      (''import.meta.env.PROD'', ''true'')]"

text \<open>The argument of \<^verbatim>\<open>Bun.build\<close> in build.ts, lines 5 to 23.\<close>

definition build_options :: "env \<Rightarrow> build_options" where
  "build_options e =
     \<lparr>entrypoints = [''./src/main.tsx''],
      outdir = Some ''./dist'',
      target = ''browser'',
      output_format = ''esm'',
      splitting = True,
      minify = True,
      define_table = build_define e\<rparr>"

text \<open>The two chained \<^verbatim>\<open>replace\<close> calls of build.ts, lines 43 to 45.\<close>

definition updatedHtml :: "string \<Rightarrow> string" where
  "updatedHtml html =
     String_replace (String_replace html ''/src/index.css'' ''/main.css'')
       ''/src/main.tsx'' ''/main.js''"

text \<open>
  What the script prints.  \<open>Log_output p n\<close> is the line of build.ts, line 38, for an
  output whose path, after \<^verbatim>\<open>replace(process.cwd(), ".")\<close>, is \<open>p\<close> and whose size is \<open>n\<close>
  bytes (printed in KB); the other constructors are the fixed lines of the script.
\<close>

datatype console_line =
  Error_line string
| Log_build_successful
| Log_generated nat
| Log_output string nat
| Log_index_copied

text \<open>
  How the process ends: \<^verbatim>\<open>process.exit(n)\<close> or the end of the script (\<open>Exit\<close>), or an
  exception that nothing catches, which the runtime reports before it ends the process
  with status 1.
\<close>

datatype exit_status = Exit nat | Uncaught string

fun exit_code :: "exit_status \<Rightarrow> nat" where
  "exit_code (Exit n) = n"
| "exit_code (Uncaught e) = 1"

record outcome =
  console :: "console_line list"
  written :: "(string \<times> string) list"
  status :: exit_status

text \<open>
  The script, run in environment \<open>e\<close> with working directory \<open>cwd\<close>.  \<open>bundler\<close> is
  \<^verbatim>\<open>Bun.build\<close>; \<open>files\<close> gives the text of the files the script can read when it reaches
  line 42 (\<open>None\<close>: reading fails).  \<open>writer p t\<close> is what \<^verbatim>\<open>Bun.write\<close> does with text
  \<open>t\<close> for path \<open>p\<close>: \<open>None\<close> when the file is written, the error when the write is
  rejected.  Neither \<^verbatim>\<open>await\<close> is guarded, so a failed read or write ends the process
  there.  \<open>written\<close> lists the files the script itself has written, in order.
\<close>

definition build_ts ::
  "env \<Rightarrow> string \<Rightarrow> (build_options \<Rightarrow> build_result) \<Rightarrow> (string \<rightharpoonup> string) \<Rightarrow>
   (string \<Rightarrow> string \<Rightarrow> string option) \<Rightarrow> outcome" where
  "build_ts e cwd bundler files writer =
     (case bundler (build_options e) of
        Rejected err \<Rightarrow> \<lparr>console = [], written = [], status = Uncaught err\<rparr>
      | Resolved ok msgs outs \<Rightarrow>
          if \<not> ok then
            \<lparr>console = Error_line ''Build failed'' # map Error_line msgs,
             written = [],
             status = Exit 1\<rparr>
          else
            (let printed =
                   [Log_build_successful, Log_generated (length outs)] @
                   map (\<lambda>output. Log_output (String_replace (path output) cwd ''.'') (byte_size output))
                     outs
             in case files ''./index.html'' of
                  None \<Rightarrow> \<lparr>console = printed, written = [], status = Uncaught ''ENOENT''\<rparr>
                | Some html \<Rightarrow>
                    (case writer ''./dist/index.html'' (updatedHtml html) of
                       Some err \<Rightarrow> \<lparr>console = printed, written = [], status = Uncaught err\<rparr>
                     | None \<Rightarrow>
                         \<lparr>console = printed @ [Log_index_copied],
                          written = [(''./dist/index.html'', updatedHtml html)],
                          status = Exit 0\<rparr>)))"

section \<open>server.ts: the development server\<close>

text \<open>The \<^verbatim>\<open>define\<close> object that \<^verbatim>\<open>bundleEntry\<close> passes to the bundler.\<close>

definition bundleEntry_define :: "env \<Rightarrow> (string \<times> string) list" where
  "bundleEntry_define e =
     [(''import.meta.env.VITE_SUBSCRIBEDEV_PUBLIC_API_KEY'',
         JSON_stringify (or_empty (e PUBLIC_API_KEY))),
      (''import.meta.env.VITE_SUBSCRIBEDEV_LOCAL_ACCESS_TOKEN'',
         JSON_stringify (or_empty (e LOCAL_ACCESS_TOKEN))),
      (''import.meta.env.DEV'', ''true''),
      (''import.meta.env.MODE'', JSON_stringify ''development'')]"

definition bundleEntry_options :: "env \<Rightarrow> string \<Rightarrow> build_options" where
  "bundleEntry_options e entryPath =
     \<lparr>entrypoints = [entryPath],
      outdir = None,
      target = ''browser'',
      output_format = ''esm'',
      splitting = False,
      minify = False,
      define_table = bundleEntry_define e\<rparr>"

text \<open>
  What \<^verbatim>\<open>bundleEntry\<close> throws: its own \<^verbatim>\<open>Error("Failed to bundle")\<close>, or whatever a
  rejected \<^verbatim>\<open>Bun.build\<close> raised, which passes through the \<^verbatim>\<open>await\<close>.  Neither
  carries bundled text.  \<open>error_text\<close> is the error in a template string.
\<close>

datatype bundle_error = Failed_to_bundle | Build_rejected string

fun error_text :: "bundle_error \<Rightarrow> string" where
  "error_text Failed_to_bundle = ''Error: Failed to bundle''"
| "error_text (Build_rejected err) = err"

datatype server_line =
  Log_error_bundling string bundle_error
| Log_file_changed string

text \<open>
  The state of the server process: \<open>bundleCache\<close> is the \<^verbatim>\<open>Map\<close> of the source, kept as
  an association list in insertion order (\<^verbatim>\<open>has\<close> and \<^verbatim>\<open>get\<close> are \<^const>\<open>map_of\<close>,
  \<^verbatim>\<open>set\<close> is \<^const>\<open>AList.update\<close>, \<^verbatim>\<open>clear\<close> gives the empty list).  \<open>builds\<close> is the
  history of the calls of \<^verbatim>\<open>Bun.build\<close> made so far, each with its options and its
  result; the code does not store it.  \<open>printed\<close> is the console.
\<close>

record server_state =
  bundleCache :: "(string \<times> string) list"
  builds :: "(build_options \<times> build_result) list"
  printed :: "server_line list"

definition initial_state :: server_state where
  "initial_state = \<lparr>bundleCache = [], builds = [], printed = []\<rparr>"

text \<open>
  The external bundler of the server: the result of a call depends on the options and,
  since source files change while the server runs, on when the call is made, given here
  by the number of calls made before it.
\<close>

type_synonym bundler = "nat \<Rightarrow> build_options \<Rightarrow> build_result"

text \<open>
  \<^verbatim>\<open>bundleEntry\<close> up to its \<^verbatim>\<open>await Bun.build\<close>: a cached text is returned at once
  (\<open>Inl\<close>); otherwise the bundler is called and the call is recorded (\<open>Inr\<close>).
\<close>

definition bundleEntry_begin ::
  "bundler \<Rightarrow> env \<Rightarrow> string \<Rightarrow> server_state \<Rightarrow> string + (build_result \<times> server_state)" where
  "bundleEntry_begin bundler e entryPath s =
     (case map_of (bundleCache s) entryPath of
        Some cached \<Rightarrow> Inl cached
      | None \<Rightarrow>
          (let opts = bundleEntry_options e entryPath;
               result = bundler (length (builds s)) opts
           in Inr (result, s\<lparr>builds := builds s @ [(opts, result)]\<rparr>)))"

text \<open>\<^verbatim>\<open>bundleEntry\<close> after the bundler has answered: store and return, or throw.\<close>

definition bundleEntry_resume ::
  "string \<Rightarrow> build_result \<Rightarrow> server_state \<Rightarrow> (bundle_error + string) \<times> server_state" where
  "bundleEntry_resume entryPath result s =
     (case result of
        Rejected err \<Rightarrow> (Inl (Build_rejected err), s)
      | Resolved ok msgs outs \<Rightarrow>
          (case outs of
             [] \<Rightarrow> (Inl Failed_to_bundle, s)
           | out # rest \<Rightarrow>
               (Inr (text_of out),
                s\<lparr>bundleCache := AList.update entryPath (text_of out) (bundleCache s)\<rparr>)))"

text \<open>A call of \<^verbatim>\<open>bundleEntry\<close> that runs to its end with nothing else in between.\<close>

definition bundleEntry ::
  "bundler \<Rightarrow> env \<Rightarrow> string \<Rightarrow> server_state \<Rightarrow> (bundle_error + string) \<times> server_state" where
  "bundleEntry bundler e entryPath s =
     (case bundleEntry_begin bundler e entryPath s of
        Inl cached \<Rightarrow> (Inr cached, s)
      | Inr (result, s1) \<Rightarrow> bundleEntry_resume entryPath result s1)"

text \<open>\<^verbatim>\<open>bundleCache.clear()\<close>, the only invalidation the server has.\<close>

definition invalidate_all :: "server_state \<Rightarrow> server_state" where
  "invalidate_all s = s\<lparr>bundleCache := []\<rparr>"

text \<open>
  The callback of \<^verbatim>\<open>watch("./src", ...)\<close>.  The file name may be \<^verbatim>\<open>null\<close>; \<^verbatim>\<open>null\<close> and
  the empty string are the two values that \<^verbatim>\<open>if (filename)\<close> rejects.
\<close>

definition watch_callback :: "string \<Rightarrow> string option \<Rightarrow> server_state \<Rightarrow> server_state" where
  "watch_callback eventType filename s =
     (case filename of
        None \<Rightarrow> s
      | Some name \<Rightarrow>
          if name = [] then s
          else invalidate_all (s\<lparr>printed := printed s @ [Log_file_changed name]\<rparr>))"

text \<open>
  Responses.  A body is a file handed to the runtime (\<^verbatim>\<open>Bun.file\<close>) or a text; \<open>headers\<close>
  are the headers the handler sets itself.
\<close>

datatype body = File_body string | Text_body string

record response =
  status_code :: nat
  body :: body
  headers :: "(string \<times> string) list"

definition not_found :: response where
  "not_found = \<lparr>status_code = 404, body = Text_body ''Not Found'', headers = []\<rparr>"

text \<open>
  The \<^verbatim>\<open>fetch\<close> handler, applied to the path of the request URL.  \<open>exists\<close> answers
  \<^verbatim>\<open>file.exists()\<close> at the time of the request.
\<close>

definition fetch ::
  "bundler \<Rightarrow> env \<Rightarrow> (string \<Rightarrow> bool) \<Rightarrow> string \<Rightarrow> server_state \<Rightarrow> response \<times> server_state" where
  "fetch bundler e exists pathname s =
     (if pathname = ''/'' then
        (\<lparr>status_code = 200, body = File_body ''index.html'', headers = []\<rparr>, s)
      else if startsWith pathname ''/public/'' \<and> exists (''.'' @ pathname) then
        (\<lparr>status_code = 200, body = File_body (''.'' @ pathname), headers = []\<rparr>, s)
      else if startsWith pathname ''/src/'' then
        (let filePath = ''.'' @ pathname in
         if exists filePath then
           (if endsWith filePath ''.css'' then
              (\<lparr>status_code = 200, body = File_body filePath,
                headers = [(''Content-Type'', ''text/css'')]\<rparr>, s)
            else if endsWith filePath ''.tsx'' \<or> endsWith filePath ''.ts'' then
              (case bundleEntry bundler e filePath s of
                 (Inr bundled, s') \<Rightarrow>
                   (\<lparr>status_code = 200, body = Text_body bundled,
                     headers = [(''Content-Type'', ''application/javascript'')]\<rparr>, s')
               | (Inl err, s') \<Rightarrow>
                   (\<lparr>status_code = 500,
                     body = Text_body (''Error bundling: '' @ error_text err),
                     headers = []\<rparr>,
                    s'\<lparr>printed := printed s' @ [Log_error_bundling filePath err]\<rparr>))
            else (not_found, s))
         else (not_found, s))
      else (not_found, s))"

text \<open>
  The cache is touched by two kinds of callback, which the event loop runs one at a
  time but in any order: the segments of \<^verbatim>\<open>bundleEntry\<close> on either side of its \<^verbatim>\<open>await\<close>,
  and the watcher.  \<open>Call p\<close> starts a call for \<open>p\<close>; a call that has to wait for the
  bundler is put in the list of pending calls, with the result it waits for.
  \<open>Resume i\<close> continues the \<open>i\<close>-th pending call.  \<open>Watch t f\<close> is a file-system event.
\<close>

datatype event = Call string | Resume nat | Watch string "string option"

type_synonym process = "server_state \<times> (string \<times> build_result) list"

fun step :: "bundler \<Rightarrow> env \<Rightarrow> process \<Rightarrow> event \<Rightarrow> process" where
  "step bundler e (s, pending) (Call p) =
     (case bundleEntry_begin bundler e p s of
        Inl cached \<Rightarrow> (s, pending)
      | Inr (result, s1) \<Rightarrow> (s1, pending @ [(p, result)]))"
| "step bundler e (s, pending) (Resume i) =
     (if i < length pending
      then (snd (bundleEntry_resume (fst (pending ! i)) (snd (pending ! i)) s),
            take i pending @ drop (Suc i) pending)
      else (s, pending))"
| "step bundler e (s, pending) (Watch eventType filename) =
     (watch_callback eventType filename s, pending)"

definition run :: "bundler \<Rightarrow> env \<Rightarrow> event list \<Rightarrow> process" where
  "run bundler e evs = foldl (step bundler e) (initial_state, []) evs"

text \<open>
  A bundling that succeeded for \<open>p\<close> with text \<open>t\<close>: a recorded call whose only entry point
  is \<open>p\<close> and whose result has \<open>t\<close> as the text of its first output.  The server takes a
  result with at least one output as a success (\<^verbatim>\<open>result.outputs.length > 0\<close>); it does not
  read the success flag.
\<close>

fun bundled_as :: "string \<Rightarrow> string \<Rightarrow> build_options \<times> build_result \<Rightarrow> bool" where
  "bundled_as p t (opts, Resolved ok msgs (out # rest)) =
     (entrypoints opts = [p] \<and> text_of out = t)"
| "bundled_as p t (opts, r) = False"

definition cache_ok :: "server_state \<Rightarrow> bool" where
  "cache_ok s =
     (distinct (map fst (bundleCache s)) \<and>
      list_all (\<lambda>(p, t). list_ex (bundled_as p t) (builds s)) (bundleCache s))"

section \<open>App.tsx: the root component\<close>

text \<open>
  An element is a tag, its props and its children; a prop whose expression is
  \<^verbatim>\<open>undefined\<close> has the value \<open>None\<close>.  \<open>meta_env\<close> is \<^verbatim>\<open>import.meta.env\<close>.
\<close>

datatype element = Element string "(string \<times> string option) list" "element list"

definition App :: "env \<Rightarrow> element" where
  "App meta_env =
     Element ''SubscribeDevProvider''
       [(''projectToken'', meta_env PUBLIC_API_KEY)]
       [Element ''div'' [(''className'', Some ''app'')]
          [Element ''AIDemo'' [] []]]"

text \<open>
  A second copy of the root component (the last part of the file that holds the server)
  also passes the local access token, as \<^verbatim>\<open>accessToken\<close>.
\<close>

definition App_accessToken :: "env \<Rightarrow> element" where
  "App_accessToken meta_env =
     Element ''SubscribeDevProvider''
       [(''projectToken'', meta_env PUBLIC_API_KEY),
        (''accessToken'', meta_env LOCAL_ACCESS_TOKEN)]
       [Element ''div'' [(''className'', Some ''app'')]
          [Element ''AIDemo'' [] []]]"

fun props :: "element \<Rightarrow> (string \<times> string option) list" where
  "props (Element tag ps children) = ps"

section \<open>Notions used to state and prove the properties\<close>

text \<open>\<^verbatim>\<open>String.prototype.includes\<close>.\<close>

definition String_includes :: "string \<Rightarrow> string \<Rightarrow> bool" where
  "String_includes s v = (indexOf s v \<noteq> None)"

text \<open>The texts a build produced, and whether one of them contains a given text.\<close>

fun output_texts :: "build_result \<Rightarrow> string list" where
  "output_texts (Rejected err) = []"
| "output_texts (Resolved ok msgs outs) = map text_of outs"

definition shows_text :: "string \<Rightarrow> build_result \<Rightarrow> bool" where
  "shows_text v r = list_ex (\<lambda>t. String_includes t v) (output_texts r)"

text \<open>
  The bundling step of build.ts has failed when \<^verbatim>\<open>Bun.build\<close> rejects or when the
  check \<^verbatim>\<open>!result.success\<close> of line 25 holds.
\<close>

fun build_failed :: "build_result \<Rightarrow> bool" where
  "build_failed (Rejected err) = True"
| "build_failed (Resolved ok msgs outs) = (\<not> ok)"

text \<open>Calls of \<^verbatim>\<open>bundleEntry\<close> for a list of paths, one after the other.\<close>

fun calls :: "bundler \<Rightarrow> env \<Rightarrow> string list \<Rightarrow> server_state \<Rightarrow> server_state" where
  "calls bundler e [] s = s"
| "calls bundler e (q # qs) s = calls bundler e qs (snd (bundleEntry bundler e q s))"

text \<open>The events that clear the cache: those of the watcher that name a file.\<close>

fun clears :: "event \<Rightarrow> bool" where
  "clears (Watch eventType (Some name)) = (name \<noteq> [])"
| "clears ev = False"

text \<open>
  The invariant of the process with its pending calls: the cache is in order, and every
  result a pending call waits for belongs to a recorded build of the path of that call.
\<close>

definition process_ok :: "process \<Rightarrow> bool" where
  "process_ok pr =
     (cache_ok (fst pr) \<and>
      (\<forall>(p, r) \<in> set (snd pr).
          \<exists>opts. entrypoints opts = [p] \<and> (opts, r) \<in> set (builds (fst pr))))"

text \<open>
  Two bundlers for the examples.  The first succeeds every time, with the text \<open>v1\<close> for
  the first call made and \<open>v2\<close> for every later one, as when a source file is edited in
  between.  The second fails on the first call made and succeeds afterwards.
\<close>

definition versioned :: bundler where
  "versioned n opts =
     Resolved True []
       [\<lparr>path = ''out.js'', text_of = (if n = 0 then ''v1'' else ''v2''), byte_size = 2\<rparr>]"


text \<open>
  Positions after a rewriting.  When the first occurrence of a pattern of length \<open>lp\<close>,
  at position \<open>i\<close>, is replaced by a text of length \<open>lr\<close>, what stood at a position \<open>k\<close>
  after that occurrence stands at \<open>k - lp + lr\<close>, and what stood before it stays where it
  was.  \<open>moved html k\<close> is the position in \<open>updatedHtml html\<close> of what stands at position
  \<open>k\<close> of \<open>html\<close> outside the two rewritten references: each reference rewritten before
  \<open>k\<close> shortens the text by the difference of the two lengths.
\<close>

definition shift :: "nat \<Rightarrow> nat \<Rightarrow> nat option \<Rightarrow> nat \<Rightarrow> nat" where
  "shift lp lr first k =
     (case first of None \<Rightarrow> k | Some i \<Rightarrow> if i < k then k - lp + lr else k)"

definition moved :: "string \<Rightarrow> nat \<Rightarrow> nat" where
  "moved html k =
     k - (case indexOf html ''/src/index.css'' of
            None \<Rightarrow> 0
          | Some i \<Rightarrow> if i < k then length ''/src/index.css'' - length ''/main.css'' else 0)
       - (case indexOf html ''/src/main.tsx'' of
            None \<Rightarrow> 0
          | Some j \<Rightarrow> if j < k then length ''/src/main.tsx'' - length ''/main.js'' else 0)"

text \<open>
  Two strings are comparable when one begins the other.  A pattern \<open>q\<close> is blind to a
  segment \<open>m\<close> when no occurrence of \<open>q\<close> in any text \<open>x @ m @ y\<close> can touch \<open>m\<close>: none
  can begin inside \<open>m\<close> (\<open>no_start\<close>) and none can begin in \<open>x\<close> and reach \<open>m\<close>
  (\<open>no_straddle\<close>).  Both are decided by comparing \<open>q\<close> and \<open>m\<close> alone.
\<close>

definition comparable :: "string \<Rightarrow> string \<Rightarrow> bool" where
  "comparable u v = (prefix u v \<or> prefix v u)"

fun no_start :: "string \<Rightarrow> string \<Rightarrow> bool" where
  "no_start q [] = True"
| "no_start q (c # cs) = (\<not> comparable q (c # cs) \<and> no_start q cs)"

definition no_straddle :: "string \<Rightarrow> string \<Rightarrow> bool" where
  "no_straddle q m = list_all (\<lambda>k. \<not> comparable (drop k q) m) [1..<length q]"

definition blind :: "string \<Rightarrow> string \<Rightarrow> bool" where
  "blind q m = (q \<noteq> [] \<and> no_straddle q m \<and> no_start q m)"

section \<open>JSON string literals\<close>

lemma hex_value_hex_digit: "n < 16 \<Longrightarrow> hex_value (hex_digit n) = Some n"
proof -
  assume "n < 16"
  then have "n \<in> set [0..<16]" by simp
  then show ?thesis
    unfolding upt_conv_Cons
    by (simp add: upt_conv_Cons hex_value_def hex_digit_def) (auto simp: hex_value_def hex_digit_def)
qed


lemma hex_digit_mod: "hex_digit (n mod 16) = hex_digit n"
  by (simp add: hex_digit_def)

lemma hex_value_zero: "hex_value CHR ''0'' = Some 0"
  by (simp add: hex_value_def)

lemma unquote_escape:
  "unescape d = Some x \<Longrightarrow> d \<noteq> CHR ''u'' \<Longrightarrow>
   unquote (CHR 0x5C # d # rest) = map_option ((#) x) (unquote rest)"
  by simp

lemma unquote_control:
  assumes "(of_char c :: nat) < 32"
  shows "unquote (CHR 0x5C # CHR ''u'' # CHR ''0'' # CHR ''0'' #
           hex_digit (of_char c div 16) # hex_digit (of_char c) # rest) =
         map_option ((#) c) (unquote rest)"
proof -
  let ?n = "of_char c :: nat"
  have 1: "hex_value (hex_digit (?n div 16)) = Some (?n div 16)"
    using assms by (intro hex_value_hex_digit) simp
  have "hex_value (hex_digit (?n mod 16)) = Some (?n mod 16)"
    by (intro hex_value_hex_digit) simp
  then have 2: "hex_value (hex_digit ?n) = Some (?n mod 16)" by (simp add: hex_digit_mod)
  have 3: "char_of (?n div 16 * 16 + ?n mod 16) = c" by simp
  show ?thesis by (simp add: hex_value_zero 1 2 3 del: char_of_nat mult_Suc_right)
qed

lemma unquote_quote_char:
  "unquote (quote_char c @ rest) = map_option ((#) c) (unquote rest)"
proof -
  consider "c = CHR 0x08" | "c = CHR 0x09" | "c = CHR 0x0A" | "c = CHR 0x0C" | "c = CHR 0x0D"
    | "c = CHR 0x22" | "c = CHR 0x5C"
    | "c \<notin> {CHR 0x08, CHR 0x09, CHR 0x0A, CHR 0x0C, CHR 0x0D, CHR 0x22, CHR 0x5C}" "(of_char c :: nat) < 32"
    | "c \<notin> {CHR 0x08, CHR 0x09, CHR 0x0A, CHR 0x0C, CHR 0x0D, CHR 0x22, CHR 0x5C}" "\<not> (of_char c :: nat) < 32"
    by blast
  then show ?thesis
  proof cases
    case 8
    then have "quote_char c = [CHR 0x5C, CHR ''u'', CHR ''0'', CHR ''0'',
        hex_digit (of_char c div 16), hex_digit (of_char c)]"
      by (simp add: quote_char_def)
    with 8(2) show ?thesis using unquote_control[of c rest] by simp
  next
    case 9
    then have "quote_char c = [c]" by (simp add: quote_char_def)
    with 9 show ?thesis by simp
  qed (simp_all add: quote_char_def unescape_def)
qed

lemma unquote_quoted: "unquote (concat (map quote_char s) @ [CHR 0x22]) = Some s"
  by (induction s) (simp_all add: unquote_quote_char del: unquote.simps(2), simp)

lemma JSON_parse_stringify: "JSON_parse_string (JSON_stringify s) = Some s"
  by (simp add: JSON_parse_string_def JSON_stringify_def unquote_quoted del: unquote.simps)

section \<open>Occurrences of a pattern in a text\<close>

lemma prefix_append_comparable: "prefix q (u @ y) \<Longrightarrow> comparable q u"
  by (auto simp: comparable_def prefix_append)

lemma prefix_longer: "length q \<le> length u \<Longrightarrow> prefix q (u @ w) = prefix q u"
  by (auto simp: prefix_append)

lemma no_straddle_prefix:
  assumes ns: "no_straddle q m" and u: "u \<noteq> []"
  shows "prefix q (u @ m @ y) = prefix q u"
proof (cases "length q \<le> length u")
  case True
  then show ?thesis by (rule prefix_longer)
next
  case False
  then have lt: "length u < length q" by simp
  have "\<not> prefix q (u @ m @ y)"
  proof
    assume "prefix q (u @ m @ y)"
    then obtain w where w: "u @ m @ y = q @ w" by (auto simp: prefix_def)
    from lt w have q: "q = u @ drop (length u) q"
      by (metis append_eq_append_conv_if append_take_drop_id less_imp_le_nat)
    with w have "m @ y = drop (length u) q @ w"
      by (metis append.assoc same_append_eq)
    then have "prefix (drop (length u) q) (m @ y)" by (simp add: prefix_def)
    then have c: "comparable (drop (length u) q) m" by (rule prefix_append_comparable)
    from u lt have "length u \<in> set [1..<length q]" by (cases u) auto
    with ns have "\<not> comparable (drop (length u) q) m"
      by (auto simp: no_straddle_def list_all_iff)
    with c show False by blast
  qed
  moreover from lt have "\<not> prefix q u" by (auto dest: prefix_length_le)
  ultimately show ?thesis by simp
qed

lemma occurrences_head:
  "no_straddle q m \<Longrightarrow> q \<noteq> [] \<Longrightarrow> occurrences q (x @ m @ y) = occurrences q x + occurrences q (m @ y)"
proof (induction x)
  case Nil
  then show ?case by simp
next
  case (Cons c x)
  have "prefix q ((c # x) @ m @ y) = prefix q (c # x)"
    using Cons.prems(1) by (rule no_straddle_prefix) simp
  with Cons show ?case by simp
qed

lemma occurrences_skip:
  "no_start q m \<Longrightarrow> q \<noteq> [] \<Longrightarrow> occurrences q (m @ y) = occurrences q y"
proof (induction m)
  case Nil
  then show ?case by simp
next
  case (Cons c m)
  from Cons.prems have "\<not> comparable q (c # m)" by simp
  then have "\<not> prefix q ((c # m) @ y)" using prefix_append_comparable by blast
  with Cons show ?case by simp
qed

lemma occurrences_blind:
  "blind q m \<Longrightarrow> occurrences q (x @ m @ y) = occurrences q x + occurrences q y"
  by (simp add: blind_def occurrences_head occurrences_skip)

lemma indexOf_bound: "indexOf s q = Some i \<Longrightarrow> i + length q \<le> length s"
proof (induction s arbitrary: i)
  case Nil
  then show ?case by (simp split: if_splits)
next
  case (Cons c s)
  show ?case
  proof (cases "prefix q (c # s)")
    case True
    with Cons.prems have "i = 0" by simp
    with True show ?thesis by (auto dest: prefix_length_le)
  next
    case False
    with Cons.prems obtain j where "indexOf s q = Some j" "i = Suc j" by auto
    with Cons.IH show ?thesis by fastforce
  qed
qed

lemma indexOf_split:
  "indexOf s q = Some i \<Longrightarrow> s = take i s @ q @ drop (i + length q) s"
proof (induction s arbitrary: i)
  case Nil
  then show ?case by (simp split: if_splits)
next
  case (Cons c s)
  show ?case
  proof (cases "prefix q (c # s)")
    case True
    with Cons.prems have "i = 0" by simp
    with True show ?thesis by (auto simp: prefix_def)
  next
    case False
    with Cons.prems obtain j where j: "indexOf s q = Some j" "i = Suc j" by auto
    from Cons.IH[OF j(1)] j(2) show ?thesis by simp
  qed
qed

lemma indexOf_None_occurrences: "indexOf s q = None \<Longrightarrow> occurrences q s = 0"
  by (induction s) (auto split: if_splits)

lemma indexOf_head:
  "no_straddle q m \<Longrightarrow> q \<noteq> [] \<Longrightarrow>
   indexOf (x @ m @ y) q =
     (case indexOf x q of
        Some i \<Rightarrow> Some i
      | None \<Rightarrow> (case indexOf (m @ y) q of None \<Rightarrow> None | Some j \<Rightarrow> Some (length x + j)))"
proof (induction x)
  case Nil
  then show ?case by (simp split: option.splits)
next
  case (Cons c x)
  have "prefix q ((c # x) @ m @ y) = prefix q (c # x)"
    using Cons.prems(1) by (rule no_straddle_prefix) simp
  with Cons show ?case by (simp split: option.splits)
qed

lemma indexOf_skip:
  "no_start q m \<Longrightarrow> q \<noteq> [] \<Longrightarrow>
   indexOf (m @ y) q = (case indexOf y q of None \<Rightarrow> None | Some j \<Rightarrow> Some (length m + j))"
proof (induction m)
  case Nil
  then show ?case by (simp split: option.splits)
next
  case (Cons c m)
  from Cons.prems have "\<not> comparable q (c # m)" by simp
  then have "\<not> prefix q ((c # m) @ y)" using prefix_append_comparable by blast
  with Cons show ?case by (simp split: option.splits)
qed

lemma indexOf_blind:
  "blind q m \<Longrightarrow>
   indexOf (x @ m @ y) q =
     (case indexOf x q of
        Some i \<Rightarrow> Some i
      | None \<Rightarrow> (case indexOf y q of None \<Rightarrow> None | Some j \<Rightarrow> Some (length x + length m + j)))"
  by (simp add: blind_def indexOf_head indexOf_skip split: option.splits)

lemma blind_consts:
  "blind ''/src/index.css'' ''/main.css''"
  "blind ''/src/index.css'' ''/src/main.tsx''"
  "blind ''/src/index.css'' ''/main.js''"
  "blind ''/src/main.tsx'' ''/src/index.css''"
  "blind ''/src/main.tsx'' ''/main.css''"
  "blind ''/src/main.tsx'' ''/main.js''"
  by (simp_all add: blind_def no_straddle_def comparable_def upt_conv_Cons)

lemma replace_at:
  "indexOf (a @ q @ w) q = Some (length a) \<Longrightarrow> String_replace (a @ q @ w) q r = a @ r @ w"
  by (simp add: String_replace_def)

lemma replace_absent: "indexOf s q = None \<Longrightarrow> String_replace s q r = s"
  by (simp add: String_replace_def)

lemma indexOf_self: "indexOf (q @ w) q = Some 0"
proof (cases "q @ w")
  case Nil
  then show ?thesis by simp
next
  case (Cons c cs)
  have "prefix q (q @ w)" by simp
  with Cons have "prefix q (c # cs)" by simp
  then have "indexOf (c # cs) q = Some 0" by simp
  with Cons show ?thesis by simp
qed

lemma indexOf_at_indep:
  "indexOf (a @ q @ w) q = Some (length a) \<Longrightarrow> indexOf (a @ q @ w') q = Some (length a)"
proof (induction a)
  case Nil
  show ?case using indexOf_self[of q w'] by simp
next
  case (Cons c a)
  have p: "prefix q ((c # a @ q) @ v) = prefix q (c # a @ q)" for v
    by (rule prefix_longer) simp
  from p[of w] p[of w'] have "prefix q (c # a @ q @ w') = prefix q (c # a @ q @ w)" by simp
  with Cons show ?case by (auto split: if_splits)
qed

lemma occurrences_self:
  assumes "no_straddle q q" and "no_start q (tl q)" and "q \<noteq> []"
  shows "occurrences q (x @ q @ y) = occurrences q x + 1 + occurrences q y"
proof -
  from assms(3) obtain c q' where q: "q = c # q'" by (cases q) auto
  have "occurrences q ((c # q') @ y) =
      (if prefix q ((c # q') @ y) then 1 else 0) + occurrences q (q' @ y)"
    by simp
  then have "occurrences q (q @ y) = 1 + occurrences q (q' @ y)"
    by (simp add: q[symmetric])
  moreover have "occurrences q (q' @ y) = occurrences q y"
    using assms(2,3) q by (simp add: occurrences_skip)
  ultimately show ?thesis using assms(1,3) by (simp add: occurrences_head)
qed

lemma replace_count_self:
  assumes "no_straddle q q" and "no_start q (tl q)" and "blind q r"
  shows "occurrences q (String_replace s q r) = occurrences q s - 1"
proof (cases "indexOf s q")
  case None
  then show ?thesis by (simp add: replace_absent indexOf_None_occurrences)
next
  case (Some i)
  let ?x = "take i s" and ?y = "drop (i + length q) s"
  from assms(3) have ne: "q \<noteq> []" by (simp add: blind_def)
  have s: "s = ?x @ q @ ?y" using Some by (rule indexOf_split)
  have "occurrences q s = occurrences q ?x + 1 + occurrences q ?y"
    by (subst s) (rule occurrences_self[OF assms(1,2) ne])
  moreover have "occurrences q (String_replace s q r) = occurrences q ?x + occurrences q ?y"
    using Some assms(3) by (simp add: String_replace_def occurrences_blind)
  ultimately show ?thesis by simp
qed

lemma replace_count_other:
  assumes "blind q p" and "blind q r"
  shows "occurrences q (String_replace s p r) = occurrences q s"
proof (cases "indexOf s p")
  case None
  then show ?thesis by (simp add: replace_absent)
next
  case (Some i)
  let ?x = "take i s" and ?y = "drop (i + length p) s"
  have s: "s = ?x @ p @ ?y" using Some by (rule indexOf_split)
  have "occurrences q s = occurrences q ?x + occurrences q ?y"
    by (subst s) (rule occurrences_blind[OF assms(1)])
  moreover have "occurrences q (String_replace s p r) = occurrences q ?x + occurrences q ?y"
    using Some assms(2) by (simp add: String_replace_def occurrences_blind)
  ultimately show ?thesis by simp
qed

lemma self_consts:
  "no_straddle ''/src/index.css'' ''/src/index.css''"
  "no_start ''/src/index.css'' (tl ''/src/index.css'')"
  "no_straddle ''/src/main.tsx'' ''/src/main.tsx''"
  "no_start ''/src/main.tsx'' (tl ''/src/main.tsx'')"
  by (simp_all add: no_straddle_def comparable_def upt_conv_Cons)

lemma indexOf_later:
  assumes bl: "blind q p" "blind q r"
    and ix: "indexOf (a @ p @ b @ q @ c) q = Some (length a + length p + length b)"
  shows "indexOf (a @ r @ b @ q @ c) q = Some (length a + length r + length b)"
proof -
  from ix have h: "(case indexOf a q of Some i \<Rightarrow> Some i
      | None \<Rightarrow> (case indexOf (b @ q @ c) q of None \<Rightarrow> None
                  | Some j \<Rightarrow> Some (length a + length p + j))) = Some (length a + length p + length b)"
    by (simp add: indexOf_blind[OF bl(1)])
  have na: "indexOf a q = None"
  proof (cases "indexOf a q")
    case (Some i)
    with h have "i = length a + length p + length b" by simp
    moreover from Some have "i + length q \<le> length a" by (rule indexOf_bound)
    moreover from bl(1) have "q \<noteq> []" by (simp add: blind_def)
    ultimately show ?thesis by simp
  qed simp
  with h have "indexOf (b @ q @ c) q = Some (length b)" by (auto split: option.splits)
  with na show ?thesis by (simp add: indexOf_blind[OF bl(2)])
qed

section \<open>The bundle cache\<close>

lemma bundleEntry_hit:
  "map_of (bundleCache s) p = Some t \<Longrightarrow> bundleEntry bundler e p s = (Inr t, s)"
  by (simp add: bundleEntry_def bundleEntry_begin_def)

lemma bundleEntry_miss:
  "map_of (bundleCache s) p = None \<Longrightarrow>
   bundleEntry bundler e p s =
     bundleEntry_resume p (bundler (length (builds s)) (bundleEntry_options e p))
       (s\<lparr>builds := builds s @ [(bundleEntry_options e p, bundler (length (builds s)) (bundleEntry_options e p))]\<rparr>)"
  by (simp add: bundleEntry_def bundleEntry_begin_def Let_def)

lemma resume_Inr_cached:
  "bundleEntry_resume p r s = (Inr t, s1) \<Longrightarrow> map_of (bundleCache s1) p = Some t"
  by (auto simp: bundleEntry_resume_def update_Some_unfold split: build_result.splits list.splits)

lemma resume_keeps_other:
  "map_of (bundleCache s) p = Some t \<Longrightarrow> q \<noteq> p \<Longrightarrow>
   map_of (bundleCache (snd (bundleEntry_resume q r s))) p = Some t"
  by (auto simp: bundleEntry_resume_def update_Some_unfold split: build_result.splits list.splits)


lemma bundleEntry_Inr_cached:
  "bundleEntry bundler e p s = (Inr t, s1) \<Longrightarrow> map_of (bundleCache s1) p = Some t"
  by (cases "map_of (bundleCache s) p") (auto simp: bundleEntry_hit bundleEntry_miss dest: resume_Inr_cached)

lemma bundleEntry_keeps:
  "map_of (bundleCache s) p = Some t \<Longrightarrow>
   map_of (bundleCache (snd (bundleEntry bundler e q s))) p = Some t"
proof (cases "map_of (bundleCache s) q")
  case None
  assume a: "map_of (bundleCache s) p = Some t"
  with None have "q \<noteq> p" by auto
  with a None show ?thesis by (simp add: bundleEntry_miss resume_keeps_other)
next
  case (Some u)
  assume "map_of (bundleCache s) p = Some t"
  with Some show ?thesis by (simp add: bundleEntry_hit)
qed

lemma calls_keeps:
  "map_of (bundleCache s) p = Some t \<Longrightarrow> map_of (bundleCache (calls bundler e qs s)) p = Some t"
  by (induction qs arbitrary: s) (auto simp: bundleEntry_keeps)



lemma bundleEntry_miss_builds:
  "map_of (bundleCache s) p = None \<Longrightarrow>
   builds (snd (bundleEntry bundler e p s)) =
     builds s @ [(bundleEntry_options e p, bundler (length (builds s)) (bundleEntry_options e p))]"
  by (auto simp: bundleEntry_miss bundleEntry_resume_def split: build_result.splits list.splits)





lemma set_update_subset: "set (AList.update k v al) \<subseteq> insert (k, v) (set al)"
  by (induction al) auto

lemma cache_ok_iff:
  "cache_ok s \<longleftrightarrow>
     distinct (map fst (bundleCache s)) \<and>
     (\<forall>(p, t) \<in> set (bundleCache s). \<exists>b \<in> set (builds s). bundled_as p t b)"
  by (auto simp: cache_ok_def list_all_iff list_ex_iff)

lemma cache_ok_initial: "cache_ok initial_state"
  by (simp add: cache_ok_def initial_state_def)

lemma cache_ok_invalidate_all: "cache_ok (invalidate_all s)"
  by (simp add: cache_ok_def invalidate_all_def)

lemma cache_ok_watch_callback: "cache_ok s \<Longrightarrow> cache_ok (watch_callback t f s)"
  by (auto simp: watch_callback_def cache_ok_invalidate_all split: option.splits)

lemma cache_ok_builds_append:
  "cache_ok s \<Longrightarrow> cache_ok (s\<lparr>builds := builds s @ bs\<rparr>)"
  by (fastforce simp: cache_ok_iff)

lemma cache_ok_printed:
  "cache_ok (s\<lparr>printed := ls\<rparr>) = cache_ok s"
  by (simp add: cache_ok_def)

lemma cache_ok_resume:
  assumes ok: "cache_ok s" and b: "(opts, r) \<in> set (builds s)" and en: "entrypoints opts = [p]"
  shows "cache_ok (snd (bundleEntry_resume p r s))"
proof (cases r)
  case (Rejected err)
  with ok show ?thesis by (simp add: bundleEntry_resume_def)
next
  case (Resolved okf msgs outs)
  show ?thesis
  proof (cases outs)
    case Nil
    with Resolved ok show ?thesis by (simp add: bundleEntry_resume_def)
  next
    case (Cons out rest)
    have new: "bundled_as p (text_of out) (opts, r)" using Resolved Cons en by simp
    have d: "distinct (map fst (AList.update p (text_of out) (bundleCache s)))"
      using ok by (simp add: cache_ok_iff distinct_update)
    have "\<exists>b \<in> set (builds s). bundled_as q t b"
      if "(q, t) \<in> set (AList.update p (text_of out) (bundleCache s))" for q t
    proof -
      from that set_update_subset[of p "text_of out" "bundleCache s"]
      have "(q, t) = (p, text_of out) \<or> (q, t) \<in> set (bundleCache s)" by blast
      then show ?thesis
      proof
        assume "(q, t) = (p, text_of out)"
        with new b show ?thesis by blast
      next
        assume "(q, t) \<in> set (bundleCache s)"
        with ok show ?thesis by (auto simp: cache_ok_iff)
      qed
    qed
    with d show ?thesis using Resolved Cons
      by (auto simp: cache_ok_iff bundleEntry_resume_def)
  qed
qed

lemma builds_resume: "builds (snd (bundleEntry_resume p r s)) = builds s"
  by (auto simp: bundleEntry_resume_def split: build_result.splits list.splits)

lemma cache_ok_bundleEntry:
  assumes "cache_ok s"
  shows "cache_ok (snd (bundleEntry bundler e p s))"
proof (cases "map_of (bundleCache s) p")
  case (Some t)
  then have "bundleEntry bundler e p s = (Inr t, s)" by (rule bundleEntry_hit)
  with assms show ?thesis by simp
next
  case None
  let ?o = "bundleEntry_options e p"
  let ?r = "bundler (length (builds s)) ?o"
  let ?s = "s\<lparr>builds := builds s @ [(?o, ?r)]\<rparr>"
  have "cache_ok ?s" using assms by (rule cache_ok_builds_append)
  moreover have "(?o, ?r) \<in> set (builds ?s)" by simp
  moreover have "entrypoints ?o = [p]" by (simp add: bundleEntry_options_def)
  ultimately have "cache_ok (snd (bundleEntry_resume p ?r ?s))" by (rule cache_ok_resume)
  then show ?thesis by (simp add: bundleEntry_miss[OF None])
qed

lemma cache_ok_fetch:
  assumes "cache_ok s"
  shows "cache_ok (snd (fetch bundler e exists pathname s))"
proof -
  have "cache_ok (snd (bundleEntry bundler e (''.'' @ pathname) s))"
    using assms by (rule cache_ok_bundleEntry)
  then show ?thesis using assms
    by (auto simp: fetch_def Let_def cache_ok_printed split: prod.splits sum.splits)
qed

lemma process_ok_step:
  assumes "process_ok pr"
  shows "process_ok (step bundler e pr ev)"
proof (cases pr)
  case (Pair s pending)
  with assms have ok: "cache_ok s"
    and pend: "\<And>p r. (p, r) \<in> set pending \<Longrightarrow> \<exists>opts. entrypoints opts = [p] \<and> (opts, r) \<in> set (builds s)"
    by (auto simp: process_ok_def)
  show ?thesis
  proof (cases ev)
    case (Call p)
    show ?thesis
    proof (cases "map_of (bundleCache s) p")
      case (Some t)
      with Pair Call assms show ?thesis by (simp add: bundleEntry_begin_def)
    next
      case None
      let ?o = "bundleEntry_options e p"
      let ?r = "bundler (length (builds s)) ?o"
      let ?s = "s\<lparr>builds := builds s @ [(?o, ?r)]\<rparr>"
      have st: "step bundler e pr ev = (?s, pending @ [(p, ?r)])"
        using Pair Call None by (simp add: bundleEntry_begin_def Let_def)
      have 1: "cache_ok ?s" using ok by (rule cache_ok_builds_append)
      have 2: "\<exists>opts. entrypoints opts = [q] \<and> (opts, r) \<in> set (builds ?s)"
        if "(q, r) \<in> set (pending @ [(p, ?r)])" for q r
      proof (cases "(q, r) \<in> set pending")
        case True
        from pend[OF this] show ?thesis by auto
      next
        case False
        with that have "q = p" "r = ?r" by auto
        moreover have "entrypoints ?o = [p]" by (simp add: bundleEntry_options_def)
        ultimately show ?thesis by auto
      qed
      show ?thesis unfolding st process_ok_def using 1 2 by auto
    qed
  next
    case (Resume i)
    show ?thesis
    proof (cases "i < length pending")
      case False
      with Pair Resume assms show ?thesis by simp
    next
      case True
      obtain p r where pr_i: "pending ! i = (p, r)" by (cases "pending ! i")
      with True have mem: "(p, r) \<in> set pending" by (metis nth_mem)
      from pend[OF mem] obtain opts where o: "entrypoints opts = [p]" "(opts, r) \<in> set (builds s)"
        by blast
      have st: "step bundler e pr ev =
          (snd (bundleEntry_resume p r s), take i pending @ drop (Suc i) pending)"
        using Pair Resume True pr_i by simp
      have 1: "cache_ok (snd (bundleEntry_resume p r s))"
        using ok o(2) o(1) by (rule cache_ok_resume)
      have sub: "set (take i pending @ drop (Suc i) pending) \<subseteq> set pending"
        using set_take_subset[of i pending] set_drop_subset[of "Suc i" pending] by auto
      have 2: "\<exists>opts. entrypoints opts = [q] \<and> (opts, r') \<in> set (builds (snd (bundleEntry_resume p r s)))"
        if "(q, r') \<in> set (take i pending @ drop (Suc i) pending)" for q r'
        using that sub pend[of q r'] by (auto simp: builds_resume)
      show ?thesis unfolding st process_ok_def using 1 2 by auto
    qed
  next
    case (Watch t f)
    have b: "builds (watch_callback t f s) = builds s"
      by (auto simp: watch_callback_def invalidate_all_def split: option.splits)
    have "cache_ok (watch_callback t f s)" using ok by (rule cache_ok_watch_callback)
    with Pair Watch pend b show ?thesis by (auto simp: process_ok_def)
  qed
qed

lemma process_ok_foldl:
  "process_ok pr \<Longrightarrow> process_ok (foldl (step bundler e) pr evs)"
  by (induction evs arbitrary: pr) (auto simp: process_ok_step)

lemma resume_keeps_absent:
  "map_of (bundleCache s) p = None \<Longrightarrow> q \<noteq> p \<Longrightarrow>
   map_of (bundleCache (snd (bundleEntry_resume q r s))) p = None"
  by (auto simp: bundleEntry_resume_def update_conv' split: build_result.splits list.splits)



lemma step_keeps_entry:
  assumes c: "map_of (bundleCache s) p = Some t" and np: "p \<notin> fst ` set pending"
    and nc: "\<not> clears ev"
  shows "map_of (bundleCache (fst (step bundler e (s, pending) ev))) p = Some t \<and>
     p \<notin> fst ` set (snd (step bundler e (s, pending) ev))"
proof (cases ev)
  case (Call q)
  show ?thesis
  proof (cases "map_of (bundleCache s) q")
    case (Some u)
    with Call c np show ?thesis by (simp add: bundleEntry_begin_def)
  next
    case None
    with c have "q \<noteq> p" by auto
    with Call None c np show ?thesis by (simp add: bundleEntry_begin_def Let_def)
  qed
next
  case (Resume i)
  show ?thesis
  proof (cases "i < length pending")
    case False
    with Resume c np show ?thesis by simp
  next
    case True
    obtain q r where qr: "pending ! i = (q, r)" by (cases "pending ! i")
    with True have "(q, r) \<in> set pending" by (metis nth_mem)
    with np have ne: "q \<noteq> p" by force
    have k: "map_of (bundleCache (snd (bundleEntry_resume q r s))) p = Some t"
      using c ne by (rule resume_keeps_other)
    have "set (take i pending @ drop (Suc i) pending) \<subseteq> set pending"
      using set_take_subset[of i pending] set_drop_subset[of "Suc i" pending] by auto
    with np have "p \<notin> fst ` set (take i pending @ drop (Suc i) pending)" by blast
    with k Resume True qr show ?thesis by simp
  qed
next
  case (Watch eventType filename)
  with nc have "filename = None \<or> filename = Some []" by (cases filename) auto
  with Watch c np show ?thesis by (auto simp: watch_callback_def)
qed

lemma foldl_step_keeps_entry:
  "map_of (bundleCache s) p = Some t \<Longrightarrow> p \<notin> fst ` set pending \<Longrightarrow>
   list_all (\<lambda>ev. \<not> clears ev) evs \<Longrightarrow>
   map_of (bundleCache (fst (foldl (step bundler e) (s, pending) evs))) p = Some t"
proof (induction evs arbitrary: s pending)
  case Nil
  then show ?case by simp
next
  case (Cons ev evs)
  obtain s' pending' where st: "step bundler e (s, pending) ev = (s', pending')"
    by (cases "step bundler e (s, pending) ev")
  from Cons.prems have "\<not> clears ev" by simp
  with Cons.prems(1,2) st step_keeps_entry[of s p t pending ev bundler e]
  have "map_of (bundleCache s') p = Some t" "p \<notin> fst ` set pending'" by auto
  moreover from Cons.prems have "list_all (\<lambda>ev. \<not> clears ev) evs" by simp
  ultimately have "map_of (bundleCache (fst (foldl (step bundler e) (s', pending') evs))) p = Some t"
    by (rule Cons.IH)
  with st show ?case by simp
qed

lemma step_keeps_absent:
  assumes c: "map_of (bundleCache s) p = None" and np: "p \<notin> fst ` set pending"
    and nc: "ev \<noteq> Call p"
  shows "map_of (bundleCache (fst (step bundler e (s, pending) ev))) p = None \<and>
     p \<notin> fst ` set (snd (step bundler e (s, pending) ev))"
proof (cases ev)
  case (Call q)
  with nc have ne: "q \<noteq> p" by simp
  show ?thesis
  proof (cases "map_of (bundleCache s) q")
    case (Some u)
    with Call c np show ?thesis by (simp add: bundleEntry_begin_def)
  next
    case None
    with Call ne c np show ?thesis by (simp add: bundleEntry_begin_def Let_def)
  qed
next
  case (Resume i)
  show ?thesis
  proof (cases "i < length pending")
    case False
    with Resume c np show ?thesis by simp
  next
    case True
    obtain q r where qr: "pending ! i = (q, r)" by (cases "pending ! i")
    with True have "(q, r) \<in> set pending" by (metis nth_mem)
    with np have ne: "q \<noteq> p" by force
    have k: "map_of (bundleCache (snd (bundleEntry_resume q r s))) p = None"
      using c ne by (rule resume_keeps_absent)
    have "set (take i pending @ drop (Suc i) pending) \<subseteq> set pending"
      using set_take_subset[of i pending] set_drop_subset[of "Suc i" pending] by auto
    with np have "p \<notin> fst ` set (take i pending @ drop (Suc i) pending)" by blast
    with k Resume True qr show ?thesis by simp
  qed
next
  case (Watch eventType filename)
  with c np show ?thesis
    by (auto simp: watch_callback_def invalidate_all_def split: option.splits)
qed

lemma foldl_step_keeps_absent:
  "map_of (bundleCache s) p = None \<Longrightarrow> p \<notin> fst ` set pending \<Longrightarrow> Call p \<notin> set evs \<Longrightarrow>
   map_of (bundleCache (fst (foldl (step bundler e) (s, pending) evs))) p = None"
proof (induction evs arbitrary: s pending)
  case Nil
  then show ?case by simp
next
  case (Cons ev evs)
  obtain s' pending' where st: "step bundler e (s, pending) ev = (s', pending')"
    by (cases "step bundler e (s, pending) ev")
  from Cons.prems have "ev \<noteq> Call p" by auto
  with Cons.prems(1,2) st step_keeps_absent[of s p pending ev bundler e]
  have "map_of (bundleCache s') p = None" "p \<notin> fst ` set pending'" by auto
  moreover from Cons.prems have "Call p \<notin> set evs" by simp
  ultimately have "map_of (bundleCache (fst (foldl (step bundler e) (s', pending') evs))) p = None"
    by (rule Cons.IH)
  with st show ?case by simp
qed

section \<open>The production build and the root component\<close>

lemma build_options_public_only:
  "e PUBLIC_API_KEY = e' PUBLIC_API_KEY \<Longrightarrow> build_options e = build_options e'"
  by (simp add: build_options_def build_define_def)

lemma build_ts_public_only:
  "e PUBLIC_API_KEY = e' PUBLIC_API_KEY \<Longrightarrow> build_ts e cwd bundler files writer = build_ts e' cwd bundler files writer"
  by (simp add: build_ts_def build_options_public_only[of e e'])

lemma keys_differ: "PUBLIC_API_KEY \<noteq> LOCAL_ACCESS_TOKEN"
  by (simp add: PUBLIC_API_KEY_def LOCAL_ACCESS_TOKEN_def)

lemma local_token_update: "(e(LOCAL_ACCESS_TOKEN := v)) PUBLIC_API_KEY = e PUBLIC_API_KEY"
  by (simp add: PUBLIC_API_KEY_def LOCAL_ACCESS_TOKEN_def)

lemma App_accessToken_reads_local_token:
  "App_accessToken [LOCAL_ACCESS_TOKEN \<mapsto> ''secret''] \<noteq> App_accessToken Map.empty"
  by (simp add: App_accessToken_def)

section \<open>The rewriting of index.html\<close>

lemma indexOf_absent_swap:
  assumes "blind q p" "blind q r" "indexOf (a @ p @ b) q = None"
  shows "indexOf (a @ r @ b) q = None"
  using assms(3) by (simp add: indexOf_blind[OF assms(1)] indexOf_blind[OF assms(2)] split: option.splits)

lemma updatedHtml_css_then_script:
  assumes i1: "indexOf (a @ ''/src/index.css'' @ b @ ''/src/main.tsx'' @ c) ''/src/index.css'' = Some (length a)"
    and i2: "indexOf (a @ ''/src/index.css'' @ b @ ''/src/main.tsx'' @ c) ''/src/main.tsx'' =
               Some (length a + length ''/src/index.css'' + length b)"
  shows "updatedHtml (a @ ''/src/index.css'' @ b @ ''/src/main.tsx'' @ c) =
           a @ ''/main.css'' @ b @ ''/main.js'' @ c"
proof -
  have 1: "String_replace (a @ ''/src/index.css'' @ b @ ''/src/main.tsx'' @ c) ''/src/index.css'' ''/main.css'' =
      a @ ''/main.css'' @ b @ ''/src/main.tsx'' @ c"
    using i1 by (rule replace_at)
  have "indexOf (a @ ''/main.css'' @ b @ ''/src/main.tsx'' @ c) ''/src/main.tsx'' =
      Some (length a + length ''/main.css'' + length b)"
    using blind_consts(4,5) i2 by (rule indexOf_later)
  then have "indexOf ((a @ ''/main.css'' @ b) @ ''/src/main.tsx'' @ c) ''/src/main.tsx'' =
      Some (length (a @ ''/main.css'' @ b))"
    by simp
  then have "String_replace ((a @ ''/main.css'' @ b) @ ''/src/main.tsx'' @ c) ''/src/main.tsx'' ''/main.js'' =
      (a @ ''/main.css'' @ b) @ ''/main.js'' @ c"
    by (rule replace_at)
  with 1 show ?thesis by (simp add: updatedHtml_def)
qed

lemma updatedHtml_script_then_css:
  assumes i2: "indexOf (a @ ''/src/main.tsx'' @ b @ ''/src/index.css'' @ c) ''/src/main.tsx'' = Some (length a)"
    and i1: "indexOf (a @ ''/src/main.tsx'' @ b @ ''/src/index.css'' @ c) ''/src/index.css'' =
               Some (length a + length ''/src/main.tsx'' + length b)"
  shows "updatedHtml (a @ ''/src/main.tsx'' @ b @ ''/src/index.css'' @ c) =
           a @ ''/main.js'' @ b @ ''/main.css'' @ c"
proof -
  from i1 have "indexOf ((a @ ''/src/main.tsx'' @ b) @ ''/src/index.css'' @ c) ''/src/index.css'' =
      Some (length (a @ ''/src/main.tsx'' @ b))"
    by simp
  then have "String_replace ((a @ ''/src/main.tsx'' @ b) @ ''/src/index.css'' @ c) ''/src/index.css'' ''/main.css'' =
      (a @ ''/src/main.tsx'' @ b) @ ''/main.css'' @ c"
    by (rule replace_at)
  then have 1: "String_replace (a @ ''/src/main.tsx'' @ b @ ''/src/index.css'' @ c) ''/src/index.css'' ''/main.css'' =
      a @ ''/src/main.tsx'' @ (b @ ''/main.css'' @ c)"
    by simp
  have "indexOf (a @ ''/src/main.tsx'' @ (b @ ''/main.css'' @ c)) ''/src/main.tsx'' = Some (length a)"
    using i2 by (rule indexOf_at_indep)
  then have "String_replace (a @ ''/src/main.tsx'' @ (b @ ''/main.css'' @ c)) ''/src/main.tsx'' ''/main.js'' =
      a @ ''/main.js'' @ (b @ ''/main.css'' @ c)"
    by (rule replace_at)
  with 1 show ?thesis by (simp add: updatedHtml_def)
qed

lemma updatedHtml_css_only:
  assumes i1: "indexOf (a @ ''/src/index.css'' @ b) ''/src/index.css'' = Some (length a)"
    and i2: "indexOf (a @ ''/src/index.css'' @ b) ''/src/main.tsx'' = None"
  shows "updatedHtml (a @ ''/src/index.css'' @ b) = a @ ''/main.css'' @ b"
proof -
  have 1: "String_replace (a @ ''/src/index.css'' @ b) ''/src/index.css'' ''/main.css'' = a @ ''/main.css'' @ b"
    using i1 by (rule replace_at)
  have "indexOf (a @ ''/main.css'' @ b) ''/src/main.tsx'' = None"
    using blind_consts(4,5) i2 by (rule indexOf_absent_swap)
  then have "String_replace (a @ ''/main.css'' @ b) ''/src/main.tsx'' ''/main.js'' = a @ ''/main.css'' @ b"
    by (rule replace_absent)
  with 1 show ?thesis by (simp add: updatedHtml_def)
qed

lemma updatedHtml_script_only:
  assumes i2: "indexOf (a @ ''/src/main.tsx'' @ b) ''/src/main.tsx'' = Some (length a)"
    and i1: "indexOf (a @ ''/src/main.tsx'' @ b) ''/src/index.css'' = None"
  shows "updatedHtml (a @ ''/src/main.tsx'' @ b) = a @ ''/main.js'' @ b"
proof -
  have 1: "String_replace (a @ ''/src/main.tsx'' @ b) ''/src/index.css'' ''/main.css'' = a @ ''/src/main.tsx'' @ b"
    using i1 by (rule replace_absent)
  have "String_replace (a @ ''/src/main.tsx'' @ b) ''/src/main.tsx'' ''/main.js'' = a @ ''/main.js'' @ b"
    using i2 by (rule replace_at)
  with 1 show ?thesis by (simp add: updatedHtml_def)
qed

lemma updatedHtml_neither:
  "indexOf html ''/src/index.css'' = None \<Longrightarrow> indexOf html ''/src/main.tsx'' = None \<Longrightarrow>
   updatedHtml html = html"
  by (simp add: updatedHtml_def replace_absent)

section \<open>Where the rewriting puts each occurrence\<close>

lemma indexOf_least:
  "indexOf s q = Some i \<Longrightarrow> prefix q (drop i s) \<and> (\<forall>j<i. \<not> prefix q (drop j s))"
proof (induction s arbitrary: i)
  case Nil
  then show ?case by (simp split: if_splits)
next
  case (Cons c s)
  show ?case
  proof (cases "prefix q (c # s)")
    case True
    with Cons.prems show ?thesis by simp
  next
    case False
    with Cons.prems obtain i' where i': "indexOf s q = Some i'" "i = Suc i'" by auto
    from Cons.IH[OF i'(1)] have ih: "prefix q (drop i' s)" "\<And>j. j < i' \<Longrightarrow> \<not> prefix q (drop j s)"
      by auto
    have "\<not> prefix q (drop j (c # s))" if "j < i" for j
    proof (cases j)
      case 0
      with False show ?thesis by simp
    next
      case (Suc j')
      with that i'(2) have "j' < i'" by simp
      with ih(2) Suc show ?thesis by simp
    qed
    with ih(1) i'(2) show ?thesis by simp
  qed
qed

lemma no_start_drop: "no_start q m \<Longrightarrow> d < length m \<Longrightarrow> \<not> comparable q (drop d m)"
proof (induction m arbitrary: d)
  case Nil
  then show ?case by simp
next
  case (Cons c m)
  then show ?case by (cases d) auto
qed

lemma occurrence_kept:
  assumes ix: "indexOf s p = Some i" and pne: "p \<noteq> []" and occ: "prefix q (drop k s)"
    and apart: "k + length q \<le> i \<or> i + length p \<le> k"
  shows "prefix q (drop (shift (length p) (length r) (Some i) k) (String_replace s p r))"
proof -
  from ix have b: "i + length p \<le> length s" by (rule indexOf_bound)
  have form: "String_replace s p r = take i s @ r @ drop (i + length p) s"
    using ix by (simp add: String_replace_def)
  from apart show ?thesis
  proof
    assume a: "k + length q \<le> i"
    from pne a b have ki: "\<not> i < k" by simp
    from occ obtain w where w: "drop k s = q @ w" by (auto simp: prefix_def)
    have "take (length q) (drop k (take i s)) = take (length q) (drop k s)"
      using a by (simp add: drop_take)
    also have "\<dots> = q" using w by simp
    finally have "prefix q (drop k (take i s))" by (metis take_is_prefix)
    then have "prefix q (drop k (take i s) @ drop (k - i) (r @ drop (i + length p) s))"
      by (rule prefix_prefix)
    moreover have "length (take i s) = i" using b by simp
    ultimately have "prefix q (drop k (take i s @ r @ drop (i + length p) s))" by simp
    with ki show ?thesis by (simp add: shift_def form)
  next
    assume a: "i + length p \<le> k"
    with pne have ik: "i < k" by (cases p) auto
    have li: "length (take i s) = i" using b by simp
    have "drop (k - length p + length r) (take i s @ r @ drop (i + length p) s) =
        drop (k - length p + length r - i - length r) (drop (i + length p) s)"
      using a li by simp
    also have "k - length p + length r - i - length r = k - (i + length p)" using a by simp
    also have "drop (k - (i + length p)) (drop (i + length p) s) = drop k s" using a by simp
    finally show ?thesis using ik occ by (simp add: shift_def form)
  qed
qed

lemma occurrence_apart:
  assumes bl: "blind q p" and ix: "indexOf s p = Some i" and occ: "prefix q (drop k s)"
  shows "k + length q \<le> i \<or> i + length p \<le> k"
proof -
  from bl have qne: "q \<noteq> []" and ns: "no_straddle q p" and nst: "no_start q p"
    by (simp_all add: blind_def)
  let ?x = "take i s" and ?y = "drop (i + length p) s"
  from ix have b: "i + length p \<le> length s" by (rule indexOf_bound)
  have s: "s = ?x @ p @ ?y" using ix by (rule indexOf_split)
  have lx: "length ?x = i" using b by simp
  show ?thesis
  proof (cases "k < i")
    case True
    then have ne: "drop k ?x \<noteq> []" using lx by simp
    have "drop k s = drop k ?x @ p @ ?y" using True lx by (subst s) simp
    with occ have "prefix q (drop k ?x @ p @ ?y)" by simp
    then have "prefix q (drop k ?x)" using no_straddle_prefix[OF ns ne] by simp
    then have "length q \<le> length (drop k ?x)" by (rule prefix_length_le)
    then have "length q \<le> i - k" by (simp only: length_drop lx)
    with True show ?thesis by simp
  next
    case False
    show ?thesis
    proof (cases "k < i + length p")
      case False
      then show ?thesis by simp
    next
      case True
      with \<open>\<not> k < i\<close> have d: "k - i < length p" by simp
      have "drop k s = drop (k - i) p @ ?y"
        using \<open>\<not> k < i\<close> True lx by (subst s) simp
      with occ have "prefix q (drop (k - i) p @ ?y)" by simp
      then have "comparable q (drop (k - i) p)" by (rule prefix_append_comparable)
      with no_start_drop[OF nst d] show ?thesis by simp
    qed
  qed
qed

lemma occurrence_after_first:
  assumes ns: "no_straddle q q" and nst: "no_start q (tl q)" and qne: "q \<noteq> []"
    and ix: "indexOf s q = Some i" and occ: "prefix q (drop k s)" and ne: "k \<noteq> i"
  shows "i + length q \<le> k"
proof (rule ccontr)
  assume c: "\<not> i + length q \<le> k"
  from indexOf_least[OF ix] occ have "\<not> k < i" by blast
  with ne have ik: "i < k" by simp
  let ?x = "take i s" and ?y = "drop (i + length q) s"
  from ix have b: "i + length q \<le> length s" by (rule indexOf_bound)
  have s: "s = ?x @ q @ ?y" using ix by (rule indexOf_split)
  have lx: "length ?x = i" using b by simp
  have "drop k s = drop (k - i) q @ ?y" using ik c lx by (subst s) simp
  with occ have "prefix q (drop (k - i) q @ ?y)" by simp
  then have cmp: "comparable q (drop (k - i) q)" by (rule prefix_append_comparable)
  from ik have "k - i = Suc (k - i - 1)" by simp
  then have "drop (k - i) q = drop (k - i - 1) (tl q)" by (metis drop_Suc)
  moreover have "k - i - 1 < length (tl q)" using ik c qne by simp
  ultimately have "\<not> comparable q (drop (k - i) q)" using no_start_drop[OF nst] by simp
  with cmp show False by simp
qed

lemma indexOf_after_replace:
  assumes bp: "blind q p" and br: "blind q r" and ix: "indexOf s p = Some i"
  shows "indexOf (String_replace s p r) q =
     (case indexOf s q of
        None \<Rightarrow> None
      | Some j \<Rightarrow> Some (if j < i then j else j - length p + length r))"
proof -
  let ?x = "take i s" and ?y = "drop (i + length p) s"
  from bp have qne: "q \<noteq> []" by (simp add: blind_def)
  from ix have b: "i + length p \<le> length s" by (rule indexOf_bound)
  have s: "s = ?x @ p @ ?y" using ix by (rule indexOf_split)
  have lx: "length ?x = i" using b by simp
  have form: "String_replace s p r = ?x @ r @ ?y" using ix by (simp add: String_replace_def)
  have old: "indexOf s q =
      (case indexOf ?x q of
         Some j \<Rightarrow> Some j
       | None \<Rightarrow> (case indexOf ?y q of None \<Rightarrow> None | Some j \<Rightarrow> Some (i + length p + j)))"
  proof -
    have "indexOf (?x @ p @ ?y) q =
      (case indexOf ?x q of
         Some j \<Rightarrow> Some j
       | None \<Rightarrow> (case indexOf ?y q of None \<Rightarrow> None
                   | Some j \<Rightarrow> Some (length ?x + length p + j)))"
      using bp by (rule indexOf_blind)
    then show ?thesis unfolding s[symmetric] by (simp only: lx)
  qed
  have new: "indexOf (String_replace s p r) q =
      (case indexOf ?x q of
         Some j \<Rightarrow> Some j
       | None \<Rightarrow> (case indexOf ?y q of None \<Rightarrow> None | Some j \<Rightarrow> Some (i + length r + j)))"
  proof -
    have "indexOf (?x @ r @ ?y) q =
      (case indexOf ?x q of
         Some j \<Rightarrow> Some j
       | None \<Rightarrow> (case indexOf ?y q of None \<Rightarrow> None
                   | Some j \<Rightarrow> Some (length ?x + length r + j)))"
      using br by (rule indexOf_blind)
    then show ?thesis unfolding form by (simp only: lx)
  qed
  show ?thesis
  proof (cases "indexOf ?x q")
    case (Some j)
    from indexOf_bound[OF Some] qne lx have "j < i" by (cases q) auto
    with Some old new show ?thesis by simp
  next
    case None
    with old new show ?thesis by (auto split: option.splits)
  qed
qed

lemma length_String_replace:
  "indexOf s p = Some i \<Longrightarrow> length (String_replace s p r) = length s - length p + length r"
  by (frule indexOf_bound) (simp add: String_replace_def)

lemma blind_rewritten:
  "blind ''/main.css'' ''/src/main.tsx''"
  by (simp add: blind_def no_straddle_def comparable_def upt_conv_Cons)

lemma lens:
  "length ''/src/index.css'' = 14" "length ''/main.css'' = 9"
  "length ''/src/main.tsx'' = 13" "length ''/main.js'' = 8"
  by simp_all

lemma through_replace:
  assumes bl: "blind q p" and pne: "p \<noteq> []" and occ: "prefix q (drop k s)"
  shows "prefix q (drop (shift (length p) (length r) (indexOf s p) k) (String_replace s p r))"
proof (cases "indexOf s p")
  case None
  with occ show ?thesis by (simp add: shift_def replace_absent)
next
  case (Some i)
  have "k + length q \<le> i \<or> i + length p \<le> k" using bl Some occ by (rule occurrence_apart)
  with Some pne occ show ?thesis by (simp add: occurrence_kept)
qed

lemma first_rewritten:
  assumes "indexOf s p = Some i"
  shows "prefix r (drop i (String_replace s p r))"
proof -
  from assms have "i + length p \<le> length s" by (rule indexOf_bound)
  then have "length (take i s) = i" by simp
  then have "drop i (take i s @ r @ drop (i + length p) s) = r @ drop (i + length p) s" by simp
  with assms show ?thesis by (simp add: String_replace_def)
qed

lemma later_kept:
  assumes ns: "no_straddle q q" and nst: "no_start q (tl q)" and qne: "q \<noteq> []"
    and ix: "indexOf s q = Some i" and occ: "prefix q (drop k s)" and ne: "k \<noteq> i"
  shows "i + length q \<le> k \<and> prefix q (drop (k - length q + length r) (String_replace s q r))"
proof -
  have a: "i + length q \<le> k" using ns nst qne ix occ ne by (rule occurrence_after_first)
  then have "k + length q \<le> i \<or> i + length q \<le> k" by simp
  with ix qne occ have "prefix q (drop (shift (length q) (length r) (Some i) k) (String_replace s q r))"
    by (rule occurrence_kept)
  moreover from a qne have "i < k" by (cases q) auto
  ultimately show ?thesis using a by (simp add: shift_def)
qed

lemma script_index_after_css:
  "indexOf (String_replace html ''/src/index.css'' ''/main.css'') ''/src/main.tsx'' =
     (case indexOf html ''/src/main.tsx'' of
        None \<Rightarrow> None
      | Some j \<Rightarrow> Some (shift 14 9 (indexOf html ''/src/index.css'') j))"
proof (cases "indexOf html ''/src/index.css''")
  case None
  then show ?thesis by (simp add: replace_absent shift_def split: option.splits)
next
  case (Some i)
  have r: "indexOf (String_replace html ''/src/index.css'' ''/main.css'') ''/src/main.tsx'' =
     (case indexOf html ''/src/main.tsx'' of
        None \<Rightarrow> None
      | Some j \<Rightarrow> Some (if j < i then j else j - length ''/src/index.css'' + length ''/main.css''))"
    using blind_consts(4,5) Some by (rule indexOf_after_replace)
  show ?thesis
  proof (cases "indexOf html ''/src/main.tsx''")
    case None
    with r show ?thesis by simp
  next
    case j: (Some j)
    from indexOf_least[OF j] have "prefix ''/src/main.tsx'' (drop j html)" by blast
    with blind_consts(4) Some
    have "j + length ''/src/main.tsx'' \<le> i \<or> i + length ''/src/index.css'' \<le> j"
      by (rule occurrence_apart)
    with r j Some show ?thesis by (auto simp: shift_def)
  qed
qed

lemma css_first_rewritten:
  assumes i: "indexOf html ''/src/index.css'' = Some i"
  shows "prefix ''/main.css'' (drop (moved html i) (updatedHtml html))"
proof -
  let ?s1 = "String_replace html ''/src/index.css'' ''/main.css''"
  have 1: "prefix ''/main.css'' (drop i ?s1)" using i by (rule first_rewritten)
  have 2: "prefix ''/main.css''
      (drop (shift (length ''/src/main.tsx'') (length ''/main.js'') (indexOf ?s1 ''/src/main.tsx'') i)
         (String_replace ?s1 ''/src/main.tsx'' ''/main.js''))"
    using blind_rewritten _ 1 by (rule through_replace) simp
  have "shift (length ''/src/main.tsx'') (length ''/main.js'') (indexOf ?s1 ''/src/main.tsx'') i =
      moved html i"
  proof (cases "indexOf html ''/src/main.tsx''")
    case None
    with i show ?thesis by (simp add: script_index_after_css shift_def moved_def)
  next
    case j: (Some j)
    from indexOf_least[OF j] have "prefix ''/src/main.tsx'' (drop j html)" by blast
    with blind_consts(4) i
    have "j + length ''/src/main.tsx'' \<le> i \<or> i + length ''/src/index.css'' \<le> j"
      by (rule occurrence_apart)
    with i j show ?thesis by (auto simp: script_index_after_css shift_def moved_def)
  qed
  with 2 show ?thesis by (simp add: updatedHtml_def)
qed

lemma css_later_kept:
  assumes i: "indexOf html ''/src/index.css'' = Some i" and ik: "i < k"
    and occ: "prefix ''/src/index.css'' (drop k html)"
  shows "prefix ''/src/index.css'' (drop (moved html k) (updatedHtml html))"
proof -
  let ?s1 = "String_replace html ''/src/index.css'' ''/main.css''"
  from ik have ne: "k \<noteq> i" by simp
  have l: "i + length ''/src/index.css'' \<le> k \<and>
      prefix ''/src/index.css'' (drop (k - length ''/src/index.css'' + length ''/main.css'') ?s1)"
    using self_consts(1,2) _ i occ ne by (rule later_kept) simp
  then have 1: "prefix ''/src/index.css'' (drop (k - 14 + 9) ?s1)" and ge: "i + 14 \<le> k"
    unfolding lens by blast+
  have 2: "prefix ''/src/index.css''
      (drop (shift (length ''/src/main.tsx'') (length ''/main.js'') (indexOf ?s1 ''/src/main.tsx'') (k - 14 + 9))
         (String_replace ?s1 ''/src/main.tsx'' ''/main.js''))"
    using blind_consts(2) _ 1 by (rule through_replace) simp
  have "shift (length ''/src/main.tsx'') (length ''/main.js'') (indexOf ?s1 ''/src/main.tsx'') (k - 14 + 9) =
      moved html k"
  proof (cases "indexOf html ''/src/main.tsx''")
    case None
    with i ik ge show ?thesis by (simp add: script_index_after_css shift_def moved_def)
  next
    case j: (Some j)
    from indexOf_least[OF j] have "prefix ''/src/main.tsx'' (drop j html)" by blast
    with blind_consts(4) i
    have a: "j + length ''/src/main.tsx'' \<le> i \<or> i + length ''/src/index.css'' \<le> j"
      by (rule occurrence_apart)
    from blind_consts(2) j occ
    have b: "k + length ''/src/index.css'' \<le> j \<or> j + length ''/src/main.tsx'' \<le> k"
      by (rule occurrence_apart)
    from a b i j ik ge show ?thesis
      by (auto simp: script_index_after_css shift_def moved_def)
  qed
  with 2 show ?thesis by (simp add: updatedHtml_def)
qed

lemma script_first_rewritten:
  assumes j: "indexOf html ''/src/main.tsx'' = Some j"
  shows "prefix ''/main.js'' (drop (moved html j) (updatedHtml html))"
proof -
  let ?s1 = "String_replace html ''/src/index.css'' ''/main.css''"
  let ?j1 = "shift 14 9 (indexOf html ''/src/index.css'') j"
  have "indexOf ?s1 ''/src/main.tsx'' = Some ?j1" using j by (simp add: script_index_after_css)
  then have 1: "prefix ''/main.js'' (drop ?j1 (String_replace ?s1 ''/src/main.tsx'' ''/main.js''))"
    by (rule first_rewritten)
  have "?j1 = moved html j"
  proof (cases "indexOf html ''/src/index.css''")
    case None
    with j show ?thesis by (simp add: shift_def moved_def)
  next
    case i: (Some i)
    from indexOf_least[OF j] have "prefix ''/src/main.tsx'' (drop j html)" by blast
    with blind_consts(4) i
    have "j + length ''/src/main.tsx'' \<le> i \<or> i + length ''/src/index.css'' \<le> j"
      by (rule occurrence_apart)
    with i j show ?thesis by (auto simp: shift_def moved_def)
  qed
  with 1 show ?thesis by (simp add: updatedHtml_def)
qed

lemma script_later_kept:
  assumes j: "indexOf html ''/src/main.tsx'' = Some j" and jk: "j < k"
    and occ: "prefix ''/src/main.tsx'' (drop k html)"
  shows "prefix ''/src/main.tsx'' (drop (moved html k) (updatedHtml html))"
proof -
  let ?s1 = "String_replace html ''/src/index.css'' ''/main.css''"
  let ?j1 = "shift 14 9 (indexOf html ''/src/index.css'') j"
  let ?k1 = "shift 14 9 (indexOf html ''/src/index.css'') k"
  have j1: "indexOf ?s1 ''/src/main.tsx'' = Some ?j1" using j by (simp add: script_index_after_css)
  have "prefix ''/src/main.tsx''
      (drop (shift (length ''/src/index.css'') (length ''/main.css'') (indexOf html ''/src/index.css'') k) ?s1)"
    using blind_consts(4) _ occ by (rule through_replace) simp
  then have k1: "prefix ''/src/main.tsx'' (drop ?k1 ?s1)" unfolding lens .
  from indexOf_least[OF j] have occj: "prefix ''/src/main.tsx'' (drop j html)" by blast
  from jk have "k \<noteq> j" by simp
  with self_consts(3,4) j occ have far: "j + length ''/src/main.tsx'' \<le> k"
    by (intro occurrence_after_first[where q = "''/src/main.tsx''" and s = html]) simp_all
  have rel: "?j1 < ?k1 \<and> ?k1 - 13 + 8 = moved html k"
  proof (cases "indexOf html ''/src/index.css''")
    case None
    with j jk far show ?thesis by (simp add: shift_def moved_def)
  next
    case i: (Some i)
    from blind_consts(4) i occj
    have a: "j + length ''/src/main.tsx'' \<le> i \<or> i + length ''/src/index.css'' \<le> j"
      by (rule occurrence_apart)
    from blind_consts(4) i occ
    have b: "k + length ''/src/main.tsx'' \<le> i \<or> i + length ''/src/index.css'' \<le> k"
      by (rule occurrence_apart)
    from a b i j jk far show ?thesis by (auto simp: shift_def moved_def)
  qed
  then have "?k1 \<noteq> ?j1" by simp
  with self_consts(3,4) j1 k1
  have lk: "?j1 + length ''/src/main.tsx'' \<le> ?k1 \<and>
      prefix ''/src/main.tsx''
        (drop (?k1 - length ''/src/main.tsx'' + length ''/main.js'')
           (String_replace ?s1 ''/src/main.tsx'' ''/main.js''))"
    by (intro later_kept) simp_all
  from rel have eq: "?k1 - 13 + 8 = moved html k" by blast
  from lk[unfolded lens] have "prefix ''/src/main.tsx''
        (drop (?k1 - 13 + 8) (String_replace ?s1 ''/src/main.tsx'' ''/main.js''))"
    by blast
  then show ?thesis unfolding eq updatedHtml_def .
qed

lemma length_updatedHtml: "length (updatedHtml html) = moved html (length html)"
proof -
  let ?s1 = "String_replace html ''/src/index.css'' ''/main.css''"
  have l1: "length ?s1 =
      (case indexOf html ''/src/index.css'' of None \<Rightarrow> length html | Some i \<Rightarrow> length html - 14 + 9)"
  proof (cases "indexOf html ''/src/index.css''")
    case None
    then show ?thesis by (simp add: replace_absent)
  next
    case (Some i)
    from length_String_replace[OF this, of "''/main.css''"] Some show ?thesis
      unfolding lens by simp
  qed
  have l2: "length (updatedHtml html) =
      (case indexOf ?s1 ''/src/main.tsx'' of None \<Rightarrow> length ?s1 | Some j \<Rightarrow> length ?s1 - 13 + 8)"
  proof (cases "indexOf ?s1 ''/src/main.tsx''")
    case None
    then show ?thesis by (simp add: updatedHtml_def replace_absent)
  next
    case (Some j)
    from length_String_replace[OF this, of "''/main.js''"] Some show ?thesis
      unfolding lens updatedHtml_def by simp
  qed
  have b1: "i + 14 \<le> length html" if "indexOf html ''/src/index.css'' = Some i" for i
    using indexOf_bound[OF that] unfolding lens .
  have b2: "j + 13 \<le> length html" if "indexOf html ''/src/main.tsx'' = Some j" for j
    using indexOf_bound[OF that] unfolding lens .
  have b3: "j + 13 \<le> length ?s1" if "indexOf ?s1 ''/src/main.tsx'' = Some j" for j
    using indexOf_bound[OF that] unfolding lens .
  show ?thesis
  proof (cases "indexOf html ''/src/index.css''")
    case None
    then show ?thesis using l2 b2
      by (auto simp: replace_absent moved_def split: option.splits dest!: b2)
  next
    case i: (Some i)
    show ?thesis
    proof (cases "indexOf html ''/src/main.tsx''")
      case None
      with i l1 l2 b1[OF i] show ?thesis by (simp add: script_index_after_css moved_def)
    next
      case j: (Some j)
      from i j have j1: "indexOf ?s1 ''/src/main.tsx'' = Some (shift 14 9 (Some i) j)"
        by (simp add: script_index_after_css)
      from b3[OF j1] i j l1 l2 b1[OF i] b2[OF j] j1 show ?thesis by (simp add: moved_def)
    qed
  qed
qed

lemma prefix_single: "prefix [c] (drop n s) \<longleftrightarrow> n < length s \<and> s ! n = c"
proof (cases "n < length s")
  case True
  then have "drop n s = s ! n # drop (Suc n) s" by (simp add: Cons_nth_drop_Suc)
  with True show ?thesis by auto
next
  case False
  then show ?thesis by simp
qed

lemma char_kept:
  assumes k: "k < length html"
    and o1: "\<And>i. indexOf html ''/src/index.css'' = Some i \<Longrightarrow> k < i \<or> i + 14 \<le> k"
    and o2: "\<And>j. indexOf html ''/src/main.tsx'' = Some j \<Longrightarrow> k < j \<or> j + 13 \<le> k"
  shows "moved html k < length (updatedHtml html) \<and> updatedHtml html ! moved html k = html ! k"
proof -
  let ?q = "[html ! k]"
  let ?s1 = "String_replace html ''/src/index.css'' ''/main.css''"
  let ?k1 = "shift 14 9 (indexOf html ''/src/index.css'') k"
  have occ: "prefix ?q (drop k html)" using k by (simp add: prefix_single)
  have 1: "prefix ?q (drop ?k1 ?s1)"
  proof (cases "indexOf html ''/src/index.css''")
    case None
    with occ show ?thesis by (simp add: shift_def replace_absent)
  next
    case (Some i)
    from o1[OF Some] have "k + length ?q \<le> i \<or> i + length ''/src/index.css'' \<le> k"
      unfolding lens by auto
    with Some have "prefix ?q (drop (shift (length ''/src/index.css'') (length ''/main.css'') (Some i) k) ?s1)"
      using occ by (intro occurrence_kept) simp_all
    with Some show ?thesis unfolding lens by simp
  qed
  have 2: "prefix ?q (drop (moved html k) (String_replace ?s1 ''/src/main.tsx'' ''/main.js''))"
  proof (cases "indexOf html ''/src/main.tsx''")
    case None
    then have "indexOf ?s1 ''/src/main.tsx'' = None" by (simp add: script_index_after_css)
    then have "String_replace ?s1 ''/src/main.tsx'' ''/main.js'' = ?s1" by (rule replace_absent)
    moreover have "?k1 = moved html k"
    proof (cases "indexOf html ''/src/index.css''")
      case None
      with \<open>indexOf html ''/src/main.tsx'' = None\<close> show ?thesis by (simp add: shift_def moved_def)
    next
      case (Some i)
      with o1[OF Some] \<open>indexOf html ''/src/main.tsx'' = None\<close> show ?thesis
        by (auto simp: shift_def moved_def)
    qed
    ultimately show ?thesis using 1 by simp
  next
    case j: (Some j)
    let ?j1 = "shift 14 9 (indexOf html ''/src/index.css'') j"
    have j1: "indexOf ?s1 ''/src/main.tsx'' = Some ?j1" using j by (simp add: script_index_after_css)
    from indexOf_least[OF j] have occj: "prefix ''/src/main.tsx'' (drop j html)" by blast
    have rel: "(?k1 + 1 \<le> ?j1 \<or> ?j1 + 13 \<le> ?k1) \<and> shift 13 8 (Some ?j1) ?k1 = moved html k"
    proof (cases "indexOf html ''/src/index.css''")
      case None
      with j o2[OF j] show ?thesis by (auto simp: shift_def moved_def)
    next
      case i: (Some i)
      from blind_consts(4) i occj
      have "j + length ''/src/main.tsx'' \<le> i \<or> i + length ''/src/index.css'' \<le> j"
        by (rule occurrence_apart)
      then have a: "j + 13 \<le> i \<or> i + 14 \<le> j" unfolding lens .
      from a i j o1[OF i] o2[OF j] show ?thesis by (auto simp: shift_def moved_def)
    qed
    then have "?k1 + length ?q \<le> ?j1 \<or> ?j1 + length ''/src/main.tsx'' \<le> ?k1"
      unfolding lens by simp
    with j1 have "prefix ?q (drop (shift (length ''/src/main.tsx'') (length ''/main.js'') (Some ?j1) ?k1)
        (String_replace ?s1 ''/src/main.tsx'' ''/main.js''))"
      using 1 by (intro occurrence_kept) simp_all
    then have "prefix ?q (drop (shift 13 8 (Some ?j1) ?k1) (String_replace ?s1 ''/src/main.tsx'' ''/main.js''))"
      unfolding lens .
    with rel show ?thesis by simp
  qed
  then show ?thesis by (simp add: prefix_single updatedHtml_def)
qed

lemma indexOf_None_no_occurrence:
  "indexOf s q = None \<Longrightarrow> n \<le> length s \<Longrightarrow> \<not> prefix q (drop n s)"
proof (induction s arbitrary: n)
  case Nil
  then show ?case by (simp split: if_splits)
next
  case (Cons c s)
  from Cons.prems(1) have np: "\<not> prefix q (c # s)" and r: "indexOf s q = None"
    by (auto split: if_splits)
  show ?case
  proof (cases n)
    case 0
    with np show ?thesis by simp
  next
    case (Suc n')
    with Cons.prems(2) have "n' \<le> length s" by simp
    with Cons.IH[OF r] Suc show ?thesis by simp
  qed
qed

text \<open>A rejected write leaves no file and ends the process with the error.\<close>

lemma build_ts_write_rejected:
  assumes "bundler (build_options e) = Resolved True msgs outs"
    and "files ''./index.html'' = Some html"
    and "writer ''./dist/index.html'' (updatedHtml html) = Some err"
  shows "written (build_ts e cwd bundler files writer) = [] \<and>
     status (build_ts e cwd bundler files writer) = Uncaught err \<and>
     exit_code (status (build_ts e cwd bundler files writer)) = 1"
  using assms by (simp add: build_ts_def Let_def)

section \<open>The properties\<close>

text \<open>
  Claim C1.  In every environment the table of build.ts gives the symbol of the local
  access token the fixed text \<^verbatim>\<open>undefined\<close>, whatever the variable holds.  The table, the
  options passed to the bundler and everything the script does depend on the environment
  through the public key alone, so setting, changing or unsetting the token changes
  nothing.  The bundler sees only its options: a build shows the text of the token
  exactly when the build made with the variable unset shows that same text.
\<close>

theorem production_define_hides_local_token:
  "map_of (build_define e) ''import.meta.env.VITE_SUBSCRIBEDEV_LOCAL_ACCESS_TOKEN'' = Some ''undefined'' \<and>
   define_table (build_options e) = build_define e \<and>
   build_define (e(LOCAL_ACCESS_TOKEN := v)) = build_define e \<and>
   (e PUBLIC_API_KEY = e' PUBLIC_API_KEY \<longrightarrow>
      build_ts e cwd bundler files writer = build_ts e' cwd bundler files writer) \<and>
   build_ts (e(LOCAL_ACCESS_TOKEN := v)) cwd bundler files writer = build_ts e cwd bundler files writer \<and>
   shows_text tok (bundler (build_options (e(LOCAL_ACCESS_TOKEN \<mapsto> tok)))) =
     shows_text tok (bundler (build_options (e(LOCAL_ACCESS_TOKEN := None))))"
proof -
  have 1: "map_of (build_define e) ''import.meta.env.VITE_SUBSCRIBEDEV_LOCAL_ACCESS_TOKEN'' = Some ''undefined''"
    by (simp add: build_define_def)
  have 2: "define_table (build_options e) = build_define e" by (simp add: build_options_def)
  have 3: "build_define (e(LOCAL_ACCESS_TOKEN := v)) = build_define e"
    by (simp add: build_define_def keys_differ)
  have 4: "build_ts (e(LOCAL_ACCESS_TOKEN := v)) cwd bundler files writer = build_ts e cwd bundler files writer"
    by (rule build_ts_public_only) (rule local_token_update)
  have 5: "build_options (e(LOCAL_ACCESS_TOKEN \<mapsto> tok)) = build_options (e(LOCAL_ACCESS_TOKEN := None))"
    by (rule build_options_public_only) (simp add: keys_differ)
  have 6: "e PUBLIC_API_KEY = e' PUBLIC_API_KEY \<longrightarrow>
      build_ts e cwd bundler files writer = build_ts e' cwd bundler files writer"
    using build_ts_public_only[of e e' cwd bundler files writer] by blast
  have 7: "shows_text tok (bundler (build_options (e(LOCAL_ACCESS_TOKEN \<mapsto> tok)))) =
     shows_text tok (bundler (build_options (e(LOCAL_ACCESS_TOKEN := None))))"
    by (simp only: 5)
  from 1 2 3 6 4 7 show ?thesis by (intro conjI)
qed

theorem production_define_hides_local_token_witness:
  "build_ts [PUBLIC_API_KEY \<mapsto> ''pub_1'', LOCAL_ACCESS_TOKEN \<mapsto> ''secret''] ''/w''
     (\<lambda>opts. Resolved True []
        [\<lparr>path = ''./dist/main.js'', text_of = concat (map snd (define_table opts)), byte_size = 0\<rparr>])
     Map.empty (\<lambda>p t. None)
   = build_ts [PUBLIC_API_KEY \<mapsto> ''pub_1''] ''/w''
     (\<lambda>opts. Resolved True []
        [\<lparr>path = ''./dist/main.js'', text_of = concat (map snd (define_table opts)), byte_size = 0\<rparr>])
     Map.empty (\<lambda>p t. None) \<and>
   \<not> shows_text ''secret''
     ((\<lambda>opts. Resolved True []
        [\<lparr>path = ''./dist/main.js'', text_of = concat (map snd (define_table opts)), byte_size = 0\<rparr>])
      (build_options [PUBLIC_API_KEY \<mapsto> ''pub_1'', LOCAL_ACCESS_TOKEN \<mapsto> ''secret'']))"
  using production_define_hides_local_token[where e = "[PUBLIC_API_KEY \<mapsto> ''pub_1'']"
      and v = "Some ''secret''" and e' = "[PUBLIC_API_KEY \<mapsto> ''pub_1'']" and cwd = "''/w''"
      and bundler = "\<lambda>opts. Resolved True []
        [\<lparr>path = ''./dist/main.js'', text_of = concat (map snd (define_table opts)), byte_size = 0\<rparr>]"
      and files = Map.empty and writer = "\<lambda>p t. None" and tok = "''secret''"]
  by (simp add: shows_text_def String_includes_def build_options_def build_define_def
      JSON_stringify_def quote_char_def or_empty_def PUBLIC_API_KEY_def LOCAL_ACCESS_TOKEN_def)

text \<open>
  Claim C7.  The table of build.ts gives the symbol of the public key the JSON string of
  the value of its variable, the JSON string of the empty string when the variable is
  unset, and gives the mode symbols the fixed texts \<^verbatim>\<open>false\<close> for DEV, \<^verbatim>\<open>true\<close> for PROD
  and the JSON string of \<^verbatim>\<open>production\<close> for MODE.  Read back as JSON, the literal of the
  public key is the value of the variable and the literal of MODE is \<^verbatim>\<open>production\<close>.
\<close>

theorem production_define_table:
  "map_of (build_define e) ''import.meta.env.VITE_SUBSCRIBEDEV_PUBLIC_API_KEY'' =
     Some (JSON_stringify (case e PUBLIC_API_KEY of None \<Rightarrow> [] | Some v \<Rightarrow> v)) \<and>
   (e PUBLIC_API_KEY = None \<longrightarrow>
      map_of (build_define e) ''import.meta.env.VITE_SUBSCRIBEDEV_PUBLIC_API_KEY'' =
        Some [CHR 0x22, CHR 0x22]) \<and>
   map_option JSON_parse_string
     (map_of (build_define e) ''import.meta.env.VITE_SUBSCRIBEDEV_PUBLIC_API_KEY'') =
     Some (Some (case e PUBLIC_API_KEY of None \<Rightarrow> [] | Some v \<Rightarrow> v)) \<and>
   map_of (build_define e) ''import.meta.env.DEV'' = Some ''false'' \<and>
   map_of (build_define e) ''import.meta.env.PROD'' = Some ''true'' \<and>
   map_of (build_define e) ''import.meta.env.MODE'' = Some (CHR 0x22 # ''production'' @ [CHR 0x22]) \<and>
   map_option JSON_parse_string (map_of (build_define e) ''import.meta.env.MODE'') =
     Some (Some ''production'') \<and>
   define_table (build_options e) = build_define e"
proof -
  have v: "or_empty (e PUBLIC_API_KEY) = (case e PUBLIC_API_KEY of None \<Rightarrow> [] | Some v \<Rightarrow> v)"
    by (simp add: or_empty_def split: option.splits)
  have m: "JSON_stringify ''production'' = CHR 0x22 # ''production'' @ [CHR 0x22]"
    by (simp add: JSON_stringify_def quote_char_def)
  have u: "e PUBLIC_API_KEY = None \<longrightarrow> JSON_stringify (or_empty (e PUBLIC_API_KEY)) = [CHR 0x22, CHR 0x22]"
    by (simp add: or_empty_def JSON_stringify_def)
  have p: "JSON_parse_string (JSON_stringify ''production'') = Some ''production''"
    by (rule JSON_parse_stringify)
  show ?thesis
    using u p by (simp add: build_define_def build_options_def v m JSON_parse_stringify)
qed

theorem production_define_table_witness:
  "map_of (build_define [PUBLIC_API_KEY \<mapsto> ''pub_1''])
     ''import.meta.env.VITE_SUBSCRIBEDEV_PUBLIC_API_KEY'' = Some (CHR 0x22 # ''pub_1'' @ [CHR 0x22]) \<and>
   map_of (build_define Map.empty)
     ''import.meta.env.VITE_SUBSCRIBEDEV_PUBLIC_API_KEY'' = Some [CHR 0x22, CHR 0x22]"
  using production_define_table[of "[PUBLIC_API_KEY \<mapsto> ''pub_1'']"]
    production_define_table[of Map.empty]
  by (simp add: JSON_stringify_def quote_char_def)

text \<open>
  Claim C4.  When the bundling step of build.ts fails, the process ends with status 1
  and the script writes no file.  When the bundler answered without success, the script
  has printed \<^verbatim>\<open>Build failed\<close> and then each log message, and nothing else; when the
  bundler rejected, the exception is what ends the process.
\<close>

theorem build_failure_is_fatal:
  assumes "build_failed (bundler (build_options e))"
  shows "exit_code (status (build_ts e cwd bundler files writer)) = 1 \<and>
     written (build_ts e cwd bundler files writer) = [] \<and>
     (\<forall>ok msgs outs. bundler (build_options e) = Resolved ok msgs outs \<longrightarrow>
        console (build_ts e cwd bundler files writer) = Error_line ''Build failed'' # map Error_line msgs \<and>
        status (build_ts e cwd bundler files writer) = Exit 1) \<and>
     (\<forall>err. bundler (build_options e) = Rejected err \<longrightarrow>
        console (build_ts e cwd bundler files writer) = [] \<and>
        status (build_ts e cwd bundler files writer) = Uncaught err)"
  using assms by (cases "bundler (build_options e)") (simp_all add: build_ts_def)

theorem build_failure_is_fatal_witness:
  "build_failed ((\<lambda>opts. Resolved False [''error: no such file''] []) (build_options Map.empty)) \<and>
   build_ts Map.empty ''/w'' (\<lambda>opts. Resolved False [''error: no such file''] [])
     [''./index.html'' \<mapsto> ''<html></html>''] (\<lambda>p t. None) =
   \<lparr>console = [Error_line ''Build failed'', Error_line ''error: no such file''],
    written = [], status = Exit 1\<rparr>"
  using build_failure_is_fatal[where bundler = "\<lambda>opts. Resolved False [''error: no such file''] []"
      and e = Map.empty and cwd = "''/w''" and files = "[''./index.html'' \<mapsto> ''<html></html>'']"
      and writer = "\<lambda>p t. None"]
  by (simp add: build_ts_def)

text \<open>
  Claim C8.  When the bundling succeeds, index.html can be read and the write is not
  rejected, the script writes one file, \<^verbatim>\<open>./dist/index.html\<close>, and ends with status 0.  The text written is the input
  in which the reference to the stylesheet has become \<^verbatim>\<open>/main.css\<close> and the reference to
  the script \<^verbatim>\<open>/main.js\<close>, whichever comes first, the text before, between and after them
  being kept; a reference that does not occur changes nothing.
\<close>

theorem build_writes_rewritten_index:
  assumes "bundler (build_options e) = Resolved True msgs outs"
    and "files ''./index.html'' = Some html"
    and "writer ''./dist/index.html'' (updatedHtml html) = None"
  shows "written (build_ts e cwd bundler files writer) = [(''./dist/index.html'', updatedHtml html)] \<and>
     status (build_ts e cwd bundler files writer) = Exit 0 \<and>
     (html = a @ ''/src/index.css'' @ b @ ''/src/main.tsx'' @ c \<and>
      indexOf html ''/src/index.css'' = Some (length a) \<and>
      indexOf html ''/src/main.tsx'' = Some (length a + length ''/src/index.css'' + length b) \<longrightarrow>
        updatedHtml html = a @ ''/main.css'' @ b @ ''/main.js'' @ c) \<and>
     (html = a @ ''/src/main.tsx'' @ b @ ''/src/index.css'' @ c \<and>
      indexOf html ''/src/main.tsx'' = Some (length a) \<and>
      indexOf html ''/src/index.css'' = Some (length a + length ''/src/main.tsx'' + length b) \<longrightarrow>
        updatedHtml html = a @ ''/main.js'' @ b @ ''/main.css'' @ c) \<and>
     (html = a @ ''/src/index.css'' @ b \<and>
      indexOf html ''/src/index.css'' = Some (length a) \<and>
      indexOf html ''/src/main.tsx'' = None \<longrightarrow>
        updatedHtml html = a @ ''/main.css'' @ b) \<and>
     (html = a @ ''/src/main.tsx'' @ b \<and>
      indexOf html ''/src/main.tsx'' = Some (length a) \<and>
      indexOf html ''/src/index.css'' = None \<longrightarrow>
        updatedHtml html = a @ ''/main.js'' @ b) \<and>
     (indexOf html ''/src/index.css'' = None \<and> indexOf html ''/src/main.tsx'' = None \<longrightarrow>
        updatedHtml html = html)"
proof -
  have "written (build_ts e cwd bundler files writer) = [(''./dist/index.html'', updatedHtml html)] \<and>
     status (build_ts e cwd bundler files writer) = Exit 0"
    using assms by (simp add: build_ts_def Let_def)
  moreover have "updatedHtml html = a @ ''/main.css'' @ b @ ''/main.js'' @ c"
    if "html = a @ ''/src/index.css'' @ b @ ''/src/main.tsx'' @ c"
      "indexOf html ''/src/index.css'' = Some (length a)"
      "indexOf html ''/src/main.tsx'' = Some (length a + length ''/src/index.css'' + length b)"
    using that(2,3) unfolding that(1) by (rule updatedHtml_css_then_script)
  moreover have "updatedHtml html = a @ ''/main.js'' @ b @ ''/main.css'' @ c"
    if "html = a @ ''/src/main.tsx'' @ b @ ''/src/index.css'' @ c"
      "indexOf html ''/src/main.tsx'' = Some (length a)"
      "indexOf html ''/src/index.css'' = Some (length a + length ''/src/main.tsx'' + length b)"
    using that(2,3) unfolding that(1) by (rule updatedHtml_script_then_css)
  moreover have "updatedHtml html = a @ ''/main.css'' @ b"
    if "html = a @ ''/src/index.css'' @ b"
      "indexOf html ''/src/index.css'' = Some (length a)"
      "indexOf html ''/src/main.tsx'' = None"
    using that(2,3) unfolding that(1) by (rule updatedHtml_css_only)
  moreover have "updatedHtml html = a @ ''/main.js'' @ b"
    if "html = a @ ''/src/main.tsx'' @ b"
      "indexOf html ''/src/main.tsx'' = Some (length a)"
      "indexOf html ''/src/index.css'' = None"
    using that(2,3) unfolding that(1) by (rule updatedHtml_script_only)
  moreover have "updatedHtml html = html"
    if "indexOf html ''/src/index.css'' = None" "indexOf html ''/src/main.tsx'' = None"
    using that by (rule updatedHtml_neither)
  ultimately show ?thesis by blast
qed

theorem build_writes_rewritten_index_witness:
  "written (build_ts Map.empty ''/w'' (\<lambda>opts. Resolved True [] [])
      [''./index.html'' \<mapsto> ''<link href=/src/index.css><script src=/src/main.tsx></script>'']
      (\<lambda>p t. None)) =
   [(''./dist/index.html'', ''<link href=/main.css><script src=/main.js></script>'')]"
proof -
  let ?html = "''<link href=/src/index.css><script src=/src/main.tsx></script>''"
  let ?files = "[''./index.html'' \<mapsto> ?html]"
  let ?b = "\<lambda>opts::build_options. Resolved True [] []"
  have 1: "?b (build_options Map.empty) = Resolved True [] []" by simp
  have 2: "?files ''./index.html'' = Some ?html" by simp
  have w: "(\<lambda>(p::string) (t::string). None :: string option) ''./dist/index.html'' (updatedHtml ?html) = None"
    by simp
  note t = build_writes_rewritten_index[where bundler = ?b and e = Map.empty and msgs = "[]"
      and outs = "[]" and files = ?files and html = ?html and cwd = "''/w''"
      and writer = "\<lambda>p t. None"
      and a = "''<link href=''" and b = "''><script src=''" and c = "''></script>''", OF 1 2 w]
  have 3: "?html = ''<link href='' @ ''/src/index.css'' @ ''><script src='' @ ''/src/main.tsx'' @ ''></script>''"
    by simp
  have 4: "indexOf ?html ''/src/index.css'' = Some (length ''<link href='')" by simp
  have 5: "indexOf ?html ''/src/main.tsx'' =
      Some (length ''<link href='' + length ''/src/index.css'' + length ''><script src='')" by simp
  from t 3 4 5 have "updatedHtml ?html =
      ''<link href='' @ ''/main.css'' @ ''><script src='' @ ''/main.js'' @ ''></script>''"
    by blast
  with t show ?thesis by simp
qed

text \<open>
  Claim C9.  The rewriting replaces the first occurrence of each of the two references
  and no other.  The position that \<^verbatim>\<open>indexOf\<close> gives is the first at which the reference
  occurs (none when it gives none); at that position, moved by what was rewritten before
  it, the text written has the new reference; every later occurrence of the reference in
  the input is an occurrence in the text written, at its moved position, and so is every
  character of the input outside the two rewritten references.  The text written has
  the length that these moves give and one occurrence less of each reference than the
  input (none less when there is none).  It is the text of
  \<^verbatim>\<open>./dist/index.html\<close> when the build succeeds.
\<close>

theorem replace_first_occurrence_only:
  "(indexOf html ''/src/index.css'' = None \<longrightarrow>
      (\<forall>n\<le>length html. \<not> prefix ''/src/index.css'' (drop n html))) \<and>
   (indexOf html ''/src/index.css'' = Some i \<longrightarrow>
      prefix ''/src/index.css'' (drop i html) \<and>
      (\<forall>n<i. \<not> prefix ''/src/index.css'' (drop n html)) \<and>
      prefix ''/main.css'' (drop (moved html i) (updatedHtml html))) \<and>
   (indexOf html ''/src/index.css'' = Some i \<and> i < k \<and> prefix ''/src/index.css'' (drop k html) \<longrightarrow>
      prefix ''/src/index.css'' (drop (moved html k) (updatedHtml html))) \<and>
   (indexOf html ''/src/main.tsx'' = None \<longrightarrow>
      (\<forall>n\<le>length html. \<not> prefix ''/src/main.tsx'' (drop n html))) \<and>
   (indexOf html ''/src/main.tsx'' = Some j \<longrightarrow>
      prefix ''/src/main.tsx'' (drop j html) \<and>
      (\<forall>n<j. \<not> prefix ''/src/main.tsx'' (drop n html)) \<and>
      prefix ''/main.js'' (drop (moved html j) (updatedHtml html))) \<and>
   (indexOf html ''/src/main.tsx'' = Some j \<and> j < m \<and> prefix ''/src/main.tsx'' (drop m html) \<longrightarrow>
      prefix ''/src/main.tsx'' (drop (moved html m) (updatedHtml html))) \<and>
   (x < length html \<and>
    (\<forall>i. indexOf html ''/src/index.css'' = Some i \<longrightarrow>
           x < i \<or> i + length ''/src/index.css'' \<le> x) \<and>
    (\<forall>j. indexOf html ''/src/main.tsx'' = Some j \<longrightarrow>
           x < j \<or> j + length ''/src/main.tsx'' \<le> x) \<longrightarrow>
      moved html x < length (updatedHtml html) \<and>
      updatedHtml html ! moved html x = html ! x) \<and>
   length (updatedHtml html) = moved html (length html) \<and>
   occurrences ''/src/index.css'' (updatedHtml html) = occurrences ''/src/index.css'' html - 1 \<and>
   occurrences ''/src/main.tsx'' (updatedHtml html) = occurrences ''/src/main.tsx'' html - 1 \<and>
   (1 < occurrences ''/src/index.css'' html \<longrightarrow> 0 < occurrences ''/src/index.css'' (updatedHtml html)) \<and>
   (1 < occurrences ''/src/main.tsx'' html \<longrightarrow> 0 < occurrences ''/src/main.tsx'' (updatedHtml html)) \<and>
   (bundler (build_options e) = Resolved True msgs outs \<and> files ''./index.html'' = Some html \<and>
    writer ''./dist/index.html'' (updatedHtml html) = None \<longrightarrow>
      written (build_ts e cwd bundler files writer) = [(''./dist/index.html'', updatedHtml html)])"
proof -
  have a1: "indexOf html ''/src/index.css'' = None \<longrightarrow>
      (\<forall>n\<le>length html. \<not> prefix ''/src/index.css'' (drop n html))"
    using indexOf_None_no_occurrence[of html "''/src/index.css''"] by blast
  have a2: "indexOf html ''/src/index.css'' = Some i \<longrightarrow>
      prefix ''/src/index.css'' (drop i html) \<and>
      (\<forall>n<i. \<not> prefix ''/src/index.css'' (drop n html)) \<and>
      prefix ''/main.css'' (drop (moved html i) (updatedHtml html))"
    using indexOf_least[of html "''/src/index.css''" i] css_first_rewritten[of html i] by blast
  have a3: "indexOf html ''/src/index.css'' = Some i \<and> i < k \<and> prefix ''/src/index.css'' (drop k html) \<longrightarrow>
      prefix ''/src/index.css'' (drop (moved html k) (updatedHtml html))"
    using css_later_kept[of html i k] by blast
  have b1: "indexOf html ''/src/main.tsx'' = None \<longrightarrow>
      (\<forall>n\<le>length html. \<not> prefix ''/src/main.tsx'' (drop n html))"
    using indexOf_None_no_occurrence[of html "''/src/main.tsx''"] by blast
  have b2: "indexOf html ''/src/main.tsx'' = Some j \<longrightarrow>
      prefix ''/src/main.tsx'' (drop j html) \<and>
      (\<forall>n<j. \<not> prefix ''/src/main.tsx'' (drop n html)) \<and>
      prefix ''/main.js'' (drop (moved html j) (updatedHtml html))"
    using indexOf_least[of html "''/src/main.tsx''" j] script_first_rewritten[of html j] by blast
  have b3: "indexOf html ''/src/main.tsx'' = Some j \<and> j < m \<and> prefix ''/src/main.tsx'' (drop m html) \<longrightarrow>
      prefix ''/src/main.tsx'' (drop (moved html m) (updatedHtml html))"
    using script_later_kept[of html j m] by blast
  have ch: "x < length html \<and>
    (\<forall>i. indexOf html ''/src/index.css'' = Some i \<longrightarrow>
           x < i \<or> i + length ''/src/index.css'' \<le> x) \<and>
    (\<forall>j. indexOf html ''/src/main.tsx'' = Some j \<longrightarrow>
           x < j \<or> j + length ''/src/main.tsx'' \<le> x) \<longrightarrow>
      moved html x < length (updatedHtml html) \<and>
      updatedHtml html ! moved html x = html ! x"
    unfolding lens using char_kept[of x html] by blast
  have l: "length (updatedHtml html) = moved html (length html)" by (rule length_updatedHtml)
  have c1: "occurrences ''/src/index.css'' (updatedHtml html) = occurrences ''/src/index.css'' html - 1"
    by (simp add: updatedHtml_def
      replace_count_self[OF self_consts(1,2) blind_consts(1)]
      replace_count_other[OF blind_consts(2,3)])
  have c2: "occurrences ''/src/main.tsx'' (updatedHtml html) = occurrences ''/src/main.tsx'' html - 1"
    by (simp add: updatedHtml_def
      replace_count_self[OF self_consts(3,4) blind_consts(6)]
      replace_count_other[OF blind_consts(4,5)])
  have c3: "1 < occurrences ''/src/index.css'' html \<longrightarrow> 0 < occurrences ''/src/index.css'' (updatedHtml html)"
    using c1 by simp
  have c4: "1 < occurrences ''/src/main.tsx'' html \<longrightarrow> 0 < occurrences ''/src/main.tsx'' (updatedHtml html)"
    using c2 by simp
  have w: "bundler (build_options e) = Resolved True msgs outs \<and> files ''./index.html'' = Some html \<and>
    writer ''./dist/index.html'' (updatedHtml html) = None \<longrightarrow>
      written (build_ts e cwd bundler files writer) = [(''./dist/index.html'', updatedHtml html)]"
    by (simp add: build_ts_def Let_def)
  from a1 a2 a3 b1 b2 b3 ch l c1 c2 c3 c4 w show ?thesis by (intro conjI)
qed

theorem replace_first_occurrence_only_witness:
  "indexOf ''<script src=/src/main.tsx></script><a href=/src/main.tsx>'' ''/src/main.tsx'' = Some 12 \<and>
   prefix ''/src/main.tsx'' (drop 43 ''<script src=/src/main.tsx></script><a href=/src/main.tsx>'') \<and>
   prefix ''/main.js''
     (drop 12 (updatedHtml ''<script src=/src/main.tsx></script><a href=/src/main.tsx>'')) \<and>
   prefix ''/src/main.tsx''
     (drop 38 (updatedHtml ''<script src=/src/main.tsx></script><a href=/src/main.tsx>'')) \<and>
   updatedHtml ''<script src=/src/main.tsx></script><a href=/src/main.tsx>'' =
     ''<script src=/main.js></script><a href=/src/main.tsx>'' \<and>
   occurrences ''/src/main.tsx''
     (updatedHtml ''<script src=/src/main.tsx></script><a href=/src/main.tsx>'') = 1"
proof -
  let ?html = "''<script src=/src/main.tsx></script><a href=/src/main.tsx>''"
  have 1: "indexOf ?html ''/src/main.tsx'' = Some 12" by simp
  have n1: "indexOf ?html ''/src/index.css'' = None" by simp
  have 2: "prefix ''/src/main.tsx'' (drop 43 ?html)" by simp
  have 3: "occurrences ''/src/main.tsx'' ?html = 2" by simp
  have 4: "updatedHtml ?html = ''<script src=/main.js></script><a href=/src/main.tsx>''"
    by (simp add: updatedHtml_def String_replace_def)
  have m1: "moved ?html 12 = 12" unfolding moved_def 1 n1 by simp
  have m2: "moved ?html 43 = 38" unfolding moved_def 1 n1 by simp
  note t = replace_first_occurrence_only[where html = ?html and j = 12 and m = 43]
  from t 1 have "prefix ''/main.js'' (drop (moved ?html 12) (updatedHtml ?html))" by blast
  then have 5: "prefix ''/main.js'' (drop 12 (updatedHtml ?html))" unfolding m1 .
  from t 1 2 have "prefix ''/src/main.tsx'' (drop (moved ?html 43) (updatedHtml ?html))" by simp
  then have 6: "prefix ''/src/main.tsx'' (drop 38 (updatedHtml ?html))" unfolding m2 .
  from t have "occurrences ''/src/main.tsx'' (updatedHtml ?html) = occurrences ''/src/main.tsx'' ?html - 1"
    by blast
  then have 7: "occurrences ''/src/main.tsx'' (updatedHtml ?html) = 1" unfolding 3 by simp
  from 1 2 5 6 4 7 show ?thesis by (intro conjI)
qed

text \<open>
  Claim C10.  The root component of \<^verbatim>\<open>src/App.tsx\<close> passes one prop to the provider, the
  public key as \<^verbatim>\<open>projectToken\<close>.  The element it renders depends on \<^verbatim>\<open>import.meta.env\<close>
  through the public key alone, so it is the same for any two values of the local
  access token.
\<close>

theorem App_ignores_local_token:
  "props (App e) = [(''projectToken'', e PUBLIC_API_KEY)] \<and>
   (e PUBLIC_API_KEY = e' PUBLIC_API_KEY \<longrightarrow> App e = App e') \<and>
   App (e(LOCAL_ACCESS_TOKEN := v)) = App (e(LOCAL_ACCESS_TOKEN := w))"
  by (simp add: App_def keys_differ)

theorem App_ignores_local_token_witness:
  "App [PUBLIC_API_KEY \<mapsto> ''pub_1'', LOCAL_ACCESS_TOKEN \<mapsto> ''secret''] =
   App [PUBLIC_API_KEY \<mapsto> ''pub_1'', LOCAL_ACCESS_TOKEN \<mapsto> ''other''] \<and>
   props (App [PUBLIC_API_KEY \<mapsto> ''pub_1'']) = [(''projectToken'', Some ''pub_1'')]"
  using App_ignores_local_token[of "[PUBLIC_API_KEY \<mapsto> ''pub_1'']"
      "[PUBLIC_API_KEY \<mapsto> ''pub_1'']" "Some ''secret''" "Some ''other''"]
  by simp

text \<open>
  Claim C2, as amended.  Once \<^verbatim>\<open>bundleEntry\<close> has returned a text for a path, a later call
  for that path returns the same text and leaves the state as it was, so that the bundler
  is not called again, provided that the cache is not cleared in between and that no
  earlier call for the path is still waiting for the bundler.  This covers any calls for
  any paths run to their end one after the other, and any callbacks in any order under
  the two conditions.  It holds for every bundler, also one that would answer differently
  by then, so that nothing compares the entry with the file.
\<close>

theorem bundleEntry_memoized:
  assumes "bundleEntry bundler e p s = (Inr t, s1)"
  shows "bundleEntry bundler e p (calls bundler e qs s1) = (Inr t, calls bundler e qs s1) \<and>
     builds (snd (bundleEntry bundler e p (calls bundler e qs s1))) = builds (calls bundler e qs s1) \<and>
     (p \<notin> fst ` set pending \<and> list_all (\<lambda>ev. \<not> clears ev) evs \<longrightarrow>
        bundleEntry bundler e p (fst (foldl (step bundler e) (s1, pending) evs)) =
          (Inr t, fst (foldl (step bundler e) (s1, pending) evs)))"
proof -
  have c: "map_of (bundleCache s1) p = Some t" using assms by (rule bundleEntry_Inr_cached)
  then have "map_of (bundleCache (calls bundler e qs s1)) p = Some t" by (rule calls_keeps)
  then have 1: "bundleEntry bundler e p (calls bundler e qs s1) = (Inr t, calls bundler e qs s1)"
    by (rule bundleEntry_hit)
  have 2: "bundleEntry bundler e p (fst (foldl (step bundler e) (s1, pending) evs)) =
          (Inr t, fst (foldl (step bundler e) (s1, pending) evs))"
    if "p \<notin> fst ` set pending" "list_all (\<lambda>ev. \<not> clears ev) evs"
  proof -
    from c that have "map_of (bundleCache (fst (foldl (step bundler e) (s1, pending) evs))) p = Some t"
      by (rule foldl_step_keeps_entry)
    then show ?thesis by (rule bundleEntry_hit)
  qed
  from 1 2 show ?thesis by simp
qed

theorem bundleEntry_memoized_witness:
  "bundleEntry
     (\<lambda>n opts. Resolved True []
        [\<lparr>path = ''out.js'', text_of = (if n = 0 then ''v1'' else ''v2''), byte_size = 2\<rparr>])
     Map.empty ''./src/main.tsx'' initial_state =
   (Inr ''v1'',
    \<lparr>bundleCache = [(''./src/main.tsx'', ''v1'')],
     builds = [(bundleEntry_options Map.empty ''./src/main.tsx'',
                Resolved True [] [\<lparr>path = ''out.js'', text_of = ''v1'', byte_size = 2\<rparr>])],
     printed = []\<rparr>) \<and>
   fst (bundleEntry
     (\<lambda>n opts. Resolved True []
        [\<lparr>path = ''out.js'', text_of = (if n = 0 then ''v1'' else ''v2''), byte_size = 2\<rparr>])
     Map.empty ''./src/main.tsx''
     (calls
        (\<lambda>n opts. Resolved True []
           [\<lparr>path = ''out.js'', text_of = (if n = 0 then ''v1'' else ''v2''), byte_size = 2\<rparr>])
        Map.empty [''./src/App.tsx'']
        \<lparr>bundleCache = [(''./src/main.tsx'', ''v1'')],
         builds = [(bundleEntry_options Map.empty ''./src/main.tsx'',
                    Resolved True [] [\<lparr>path = ''out.js'', text_of = ''v1'', byte_size = 2\<rparr>])],
         printed = []\<rparr>)) = Inr ''v1'' \<and>
   fst (bundleEntry
     (\<lambda>n opts. Resolved True []
        [\<lparr>path = ''out.js'', text_of = (if n = 0 then ''v1'' else ''v2''), byte_size = 2\<rparr>])
     Map.empty ''./src/main.tsx''
     (fst (foldl
        (step (\<lambda>n opts. Resolved True []
           [\<lparr>path = ''out.js'', text_of = (if n = 0 then ''v1'' else ''v2''), byte_size = 2\<rparr>])
           Map.empty)
        (\<lparr>bundleCache = [(''./src/main.tsx'', ''v1'')],
          builds = [(bundleEntry_options Map.empty ''./src/main.tsx'',
                    Resolved True [] [\<lparr>path = ''out.js'', text_of = ''v1'', byte_size = 2\<rparr>])],
          printed = []\<rparr>, [])
        [Call ''./src/App.tsx'', Watch ''rename'' None, Resume 0]))) = Inr ''v1''"
proof -
  let ?b = "\<lambda>(n::nat) (opts::build_options). Resolved True []
        [\<lparr>path = ''out.js'', text_of = (if n = 0 then ''v1'' else ''v2''), byte_size = 2\<rparr>]"
  let ?s1 = "\<lparr>bundleCache = [(''./src/main.tsx'', ''v1'')],
     builds = [(bundleEntry_options Map.empty ''./src/main.tsx'',
                Resolved True [] [\<lparr>path = ''out.js'', text_of = ''v1'', byte_size = 2\<rparr>])],
     printed = []\<rparr>"
  let ?evs = "[Call ''./src/App.tsx'', Watch ''rename'' None, Resume 0]"
  have h: "bundleEntry ?b Map.empty ''./src/main.tsx'' initial_state = (Inr ''v1'', ?s1)"
    by (simp add: bundleEntry_def bundleEntry_begin_def bundleEntry_resume_def
        initial_state_def Let_def)
  have g: "''./src/main.tsx'' \<notin> fst ` set ([] :: (string \<times> build_result) list) \<and>
      list_all (\<lambda>ev. \<not> clears ev) ?evs"
    by simp
  note t = bundleEntry_memoized[OF h, of "[''./src/App.tsx'']" "[]" ?evs]
  from t have 1: "bundleEntry ?b Map.empty ''./src/main.tsx'' (calls ?b Map.empty [''./src/App.tsx''] ?s1) =
      (Inr ''v1'', calls ?b Map.empty [''./src/App.tsx''] ?s1)"
    by blast
  from t g have 2: "bundleEntry ?b Map.empty ''./src/main.tsx''
        (fst (foldl (step ?b Map.empty) (?s1, []) ?evs)) =
      (Inr ''v1'', fst (foldl (step ?b Map.empty) (?s1, []) ?evs))"
    by blast
  show ?thesis by (simp only: h 1 2 fst_conv simp_thms)
qed

text \<open>
  Without the second condition the statement fails.  Two calls for the same path start
  before either has an answer, so both call the bundler.  When the first has stored
  \<open>v1\<close>, a call returns \<open>v1\<close>; then the second stores \<open>v2\<close>, with no clearing of the cache,
  and a call returns \<open>v2\<close>.
\<close>

theorem bundleEntry_memoized_counterexample:
  "bundleEntry versioned Map.empty ''./src/main.tsx''
     (fst (run versioned Map.empty
        [Call ''./src/main.tsx'', Call ''./src/main.tsx'', Resume 0])) =
   (Inr ''v1'',
    fst (run versioned Map.empty
        [Call ''./src/main.tsx'', Call ''./src/main.tsx'', Resume 0])) \<and>
   \<not> clears (Resume 0) \<and>
   fst (bundleEntry versioned Map.empty ''./src/main.tsx''
     (fst (run versioned Map.empty
        [Call ''./src/main.tsx'', Call ''./src/main.tsx'', Resume 0, Resume 0]))) = Inr ''v2''"
  by (simp add: run_def bundleEntry_def bundleEntry_begin_def bundleEntry_resume_def
      initial_state_def Let_def versioned_def)




text \<open>
  Claim C5, as amended.  Clearing the cache removes every entry, from the watcher too
  when the event names a file.  A call of \<^verbatim>\<open>bundleEntry\<close> that follows, for any path, calls
  the bundler exactly once, with that path as entry point, provided that no call for the
  path was waiting for the bundler when the cache was cleared and none is made in
  between; calls for other paths and watcher events may come in between, in any order.
\<close>

theorem invalidate_all_forces_rebuild:
  "bundleCache (invalidate_all s) = [] \<and>
   (name \<noteq> [] \<longrightarrow> bundleCache (watch_callback t (Some name) s) = []) \<and>
   builds (snd (bundleEntry bundler e p (invalidate_all s))) =
     builds s @ [(bundleEntry_options e p, bundler (length (builds s)) (bundleEntry_options e p))] \<and>
   length (builds (snd (bundleEntry bundler e p (invalidate_all s)))) = length (builds s) + 1 \<and>
   (p \<notin> fst ` set pending \<and> Call p \<notin> set evs \<longrightarrow>
      builds (snd (bundleEntry bundler e p
                (fst (foldl (step bundler e) (invalidate_all s, pending) evs)))) =
        builds (fst (foldl (step bundler e) (invalidate_all s, pending) evs)) @
          [(bundleEntry_options e p,
            bundler (length (builds (fst (foldl (step bundler e) (invalidate_all s, pending) evs))))
              (bundleEntry_options e p))])"
proof -
  have m: "map_of (bundleCache (invalidate_all s)) p = None" by (simp add: invalidate_all_def)
  then have "builds (snd (bundleEntry bundler e p (invalidate_all s))) =
     builds (invalidate_all s) @ [(bundleEntry_options e p, bundler (length (builds (invalidate_all s))) (bundleEntry_options e p))]"
    by (rule bundleEntry_miss_builds)
  then have 1: "bundleCache (invalidate_all s) = [] \<and>
     (name \<noteq> [] \<longrightarrow> bundleCache (watch_callback t (Some name) s) = []) \<and>
     builds (snd (bundleEntry bundler e p (invalidate_all s))) =
       builds s @ [(bundleEntry_options e p, bundler (length (builds s)) (bundleEntry_options e p))] \<and>
     length (builds (snd (bundleEntry bundler e p (invalidate_all s)))) = length (builds s) + 1"
    by (simp add: invalidate_all_def watch_callback_def)
  have 2: "builds (snd (bundleEntry bundler e p
                (fst (foldl (step bundler e) (invalidate_all s, pending) evs)))) =
        builds (fst (foldl (step bundler e) (invalidate_all s, pending) evs)) @
          [(bundleEntry_options e p,
            bundler (length (builds (fst (foldl (step bundler e) (invalidate_all s, pending) evs))))
              (bundleEntry_options e p))]"
    if "p \<notin> fst ` set pending" "Call p \<notin> set evs"
  proof -
    from m that
    have "map_of (bundleCache (fst (foldl (step bundler e) (invalidate_all s, pending) evs))) p = None"
      by (rule foldl_step_keeps_absent)
    then show ?thesis by (rule bundleEntry_miss_builds)
  qed
  from 1 2 show ?thesis by blast
qed

theorem invalidate_all_forces_rebuild_witness:
  "builds (snd (bundleEntry versioned Map.empty ''./src/main.tsx''
     \<lparr>bundleCache = [(''./src/main.tsx'', ''old'')], builds = [], printed = []\<rparr>)) = [] \<and>
   builds (snd (bundleEntry versioned Map.empty ''./src/main.tsx''
     (invalidate_all \<lparr>bundleCache = [(''./src/main.tsx'', ''old'')], builds = [], printed = []\<rparr>))) =
   [(bundleEntry_options Map.empty ''./src/main.tsx'',
     Resolved True [] [\<lparr>path = ''out.js'', text_of = ''v1'', byte_size = 2\<rparr>])] \<and>
   length (builds (snd (bundleEntry versioned Map.empty ''./src/main.tsx''
     (fst (foldl (step versioned Map.empty)
        (invalidate_all \<lparr>bundleCache = [(''./src/main.tsx'', ''old'')], builds = [], printed = []\<rparr>,
         [(''./src/App.tsx'', versioned 7 (bundleEntry_options Map.empty ''./src/App.tsx''))])
        [Resume 0, Call ''./src/App.tsx''])))))
   = length (builds (fst (foldl (step versioned Map.empty)
        (invalidate_all \<lparr>bundleCache = [(''./src/main.tsx'', ''old'')], builds = [], printed = []\<rparr>,
         [(''./src/App.tsx'', versioned 7 (bundleEntry_options Map.empty ''./src/App.tsx''))])
        [Resume 0, Call ''./src/App.tsx'']))) + 1"
proof -
  let ?s = "\<lparr>bundleCache = [(''./src/main.tsx'', ''old'')], builds = [], printed = []\<rparr>"
  let ?pending = "[(''./src/App.tsx'', versioned 7 (bundleEntry_options Map.empty ''./src/App.tsx''))]"
  let ?evs = "[Resume 0, Call ''./src/App.tsx'']"
  have before: "builds (snd (bundleEntry versioned Map.empty ''./src/main.tsx'' ?s)) = []"
    by (simp add: bundleEntry_def bundleEntry_begin_def)
  note t = invalidate_all_forces_rebuild[where s = ?s and name = "''x''" and t = "''change''"
      and bundler = versioned and e = Map.empty and p = "''./src/main.tsx''"
      and pending = ?pending and evs = ?evs]
  have g: "''./src/main.tsx'' \<notin> fst ` set ?pending \<and> Call ''./src/main.tsx'' \<notin> set ?evs"
    by simp
  from t have after: "builds (snd (bundleEntry versioned Map.empty ''./src/main.tsx'' (invalidate_all ?s))) =
      builds ?s @ [(bundleEntry_options Map.empty ''./src/main.tsx'',
                    versioned (length (builds ?s)) (bundleEntry_options Map.empty ''./src/main.tsx''))]"
    by blast
  from t g have later: "builds (snd (bundleEntry versioned Map.empty ''./src/main.tsx''
                (fst (foldl (step versioned Map.empty) (invalidate_all ?s, ?pending) ?evs)))) =
        builds (fst (foldl (step versioned Map.empty) (invalidate_all ?s, ?pending) ?evs)) @
          [(bundleEntry_options Map.empty ''./src/main.tsx'',
            versioned (length (builds (fst (foldl (step versioned Map.empty) (invalidate_all ?s, ?pending) ?evs))))
              (bundleEntry_options Map.empty ''./src/main.tsx''))]"
    by blast
  have l: "length (builds (snd (bundleEntry versioned Map.empty ''./src/main.tsx''
                (fst (foldl (step versioned Map.empty) (invalidate_all ?s, ?pending) ?evs))))) =
      length (builds (fst (foldl (step versioned Map.empty) (invalidate_all ?s, ?pending) ?evs))) + 1"
    by (simp only: later length_append list.size)
  from before after l show ?thesis by (simp add: versioned_def)
qed

text \<open>
  Without the condition the statement fails.  A call that was waiting for the bundler
  when the cache was cleared stores its text afterwards; the next call for that path,
  which was in the cache before the clearing, finds the entry and does not call the
  bundler.
\<close>

theorem invalidate_all_forces_rebuild_counterexample:
  "map_of (bundleCache (fst (run versioned Map.empty
        [Call ''./src/main.tsx'', Call ''./src/main.tsx'', Resume 0]))) ''./src/main.tsx'' = Some ''v1'' \<and>
   bundleCache (fst (run versioned Map.empty
        [Call ''./src/main.tsx'', Call ''./src/main.tsx'', Resume 0,
         Watch ''change'' (Some ''App.tsx'')])) = [] \<and>
   bundleEntry versioned Map.empty ''./src/main.tsx''
     (fst (run versioned Map.empty
        [Call ''./src/main.tsx'', Call ''./src/main.tsx'', Resume 0,
         Watch ''change'' (Some ''App.tsx''), Resume 0])) =
   (Inr ''v2'',
    fst (run versioned Map.empty
        [Call ''./src/main.tsx'', Call ''./src/main.tsx'', Resume 0,
         Watch ''change'' (Some ''App.tsx''), Resume 0]))"
  by (simp add: run_def bundleEntry_def bundleEntry_begin_def bundleEntry_resume_def
      watch_callback_def invalidate_all_def initial_state_def Let_def versioned_def)

text \<open>
  Claim C6.  After any sequence of callbacks, with calls of \<^verbatim>\<open>bundleEntry\<close> waiting for
  the bundler in any order and file-system events in between, the cache has at most one
  entry for each path, and the text of each entry is the first output of a recorded
  build of exactly that path.  Each single operation keeps this: a call run to its end,
  a clearing, a watcher event, a request.
\<close>

theorem cache_invariant:
  "cache_ok (fst (run bundler e evs)) \<and>
   (cache_ok s \<longrightarrow>
      cache_ok (snd (bundleEntry bundler e p s)) \<and>
      cache_ok (invalidate_all s) \<and>
      cache_ok (watch_callback t f s) \<and>
      cache_ok (snd (fetch bundler e exists pathname s)))"
proof -
  have "process_ok (initial_state, [])" by (simp add: process_ok_def cache_ok_initial)
  then have "process_ok (run bundler e evs)" unfolding run_def by (rule process_ok_foldl)
  then have "cache_ok (fst (run bundler e evs))" by (simp add: process_ok_def)
  then show ?thesis
    by (simp add: cache_ok_bundleEntry cache_ok_invalidate_all cache_ok_watch_callback cache_ok_fetch)
qed

theorem cache_invariant_witness:
  "bundleCache (fst (run
       (\<lambda>n opts. Resolved True []
          [\<lparr>path = ''out.js'', text_of = (if n = 0 then ''v1'' else ''v2''), byte_size = 2\<rparr>])
       Map.empty
       [Call ''./src/main.tsx'', Call ''./src/main.tsx'', Resume 0,
        Watch ''change'' (Some ''App.tsx''), Resume 0])) = [(''./src/main.tsx'', ''v2'')] \<and>
   cache_ok (fst (run
       (\<lambda>n opts. Resolved True []
          [\<lparr>path = ''out.js'', text_of = (if n = 0 then ''v1'' else ''v2''), byte_size = 2\<rparr>])
       Map.empty
       [Call ''./src/main.tsx'', Call ''./src/main.tsx'', Resume 0,
        Watch ''change'' (Some ''App.tsx''), Resume 0]))"
proof -
  let ?b = "\<lambda>(n::nat) (opts::build_options). Resolved True []
          [\<lparr>path = ''out.js'', text_of = (if n = 0 then ''v1'' else ''v2''), byte_size = 2\<rparr>]"
  let ?evs = "[Call ''./src/main.tsx'', Call ''./src/main.tsx'', Resume 0,
        Watch ''change'' (Some ''App.tsx''), Resume 0]"
  have "bundleCache (fst (run ?b Map.empty ?evs)) = [(''./src/main.tsx'', ''v2'')]"
    by (simp add: run_def bundleEntry_begin_def bundleEntry_resume_def watch_callback_def
        invalidate_all_def initial_state_def Let_def)
  with cache_invariant[of ?b Map.empty ?evs] show ?thesis by blast
qed

end
